theory Spec2Isabelle
  imports Main "HOL-Library.Word"
begin

unbundle bit_operations_syntax

section \<open>gbaspritenav: the decoder of \<^verbatim>\<open>gbaspritenav.py\<close>\<close>

text \<open>
  A shallow embedding of the decode pipeline of \<^verbatim>\<open>gbaspritenav.py\<close>: the helper
  \<^verbatim>\<open>cut\<close>, the classes \<^verbatim>\<open>Palette\<close>, \<^verbatim>\<open>Image\<close>, \<^verbatim>\<open>Sprite\<close> and the method
  \<^verbatim>\<open>ROM.search\<close>. Offsets, tile-grid sizes and quantities are natural numbers: the
  model covers the calls with non-negative arguments. A byte is an 8-bit word; the
  integers Python computes from bytes are natural numbers, which never overflow. Every
  exception of the source is a value of \<open>error\<close>.
\<close>

subsection \<open>Constants and exceptions\<close>

type_synonym byte = "8 word"

datatype error =
  IndexError | ValueError | StructError | NoPixbuf | FileNotFoundError | PermissionError

definition ROW :: nat where
  "ROW = 4"

definition BLOCK :: nat where
  "BLOCK = ROW * 8"

text \<open>Sequencing of statements that may raise: the first exception ends the run.\<close>

definition ebind :: "error + 'a \<Rightarrow> ('a \<Rightarrow> error + 'b) \<Rightarrow> error + 'b" where
  "ebind m f = (case m of Inl e \<Rightarrow> Inl e | Inr v \<Rightarrow> f v)"

text \<open>A list comprehension whose element expression may raise.\<close>

fun map_try :: "('a \<Rightarrow> error + 'b) \<Rightarrow> 'a list \<Rightarrow> error + 'b list" where
  "map_try f [] = Inr []"
| "map_try f (x # xs) =
     ebind (f x) (\<lambda>y. ebind (map_try f xs) (\<lambda>ys. Inr (y # ys)))"

text \<open>A \<^verbatim>\<open>for\<close> loop over a list of values, whose body updates the loop's state.\<close>

fun for_loop :: "'i list \<Rightarrow> ('i \<Rightarrow> 's \<Rightarrow> error + 's) \<Rightarrow> 's \<Rightarrow> error + 's" where
  "for_loop [] body s = Inr s"
| "for_loop (i # js) body s = ebind (body i s) (for_loop js body)"

text \<open>\<^verbatim>\<open>xs[i]\<close> for \<open>i \<ge> 0\<close>: IndexError out of range.\<close>

definition getitem :: "'a list \<Rightarrow> nat \<Rightarrow> error + 'a" where
  "getitem xs i = (if i < length xs then Inr (xs ! i) else Inl IndexError)"

text \<open>\<^verbatim>\<open>range(start, stop, step)\<close> for a step \<open>\<ge> 0\<close>: a zero step raises ValueError.\<close>

definition py_range :: "nat \<Rightarrow> nat \<Rightarrow> nat \<Rightarrow> error + nat list" where
  "py_range start stop step =
     (if step = 0 then Inl ValueError
      else Inr (map (\<lambda>k. start + k * step) [0..<(stop - start + step - 1) div step]))"

text \<open>
  \<^verbatim>\<open>def cut(iterable, chunksize):
      return [iterable[i:i+chunksize] for i in range(0, len(iterable), chunksize)]\<close>
\<close>

definition cut :: "'a list \<Rightarrow> nat \<Rightarrow> error + 'a list list" where
  "cut iterable chunksize =
     ebind (py_range 0 (length iterable) chunksize)
       (\<lambda>starts. Inr (map (\<lambda>i. take chunksize (drop i iterable)) starts))"

subsection \<open>Palette\<close>

text \<open>
  \<^verbatim>\<open>struct.unpack('H', b)\<close> reads an unsigned 16-bit value in the byte order of the
  host, and raises \<^verbatim>\<open>struct.error\<close> unless \<open>b\<close> has exactly two bytes. The host's byte
  order is a parameter of the model.
\<close>

datatype byteorder = LittleEndian | BigEndian

definition unpack_H :: "byteorder \<Rightarrow> byte list \<Rightarrow> error + nat" where
  "unpack_H native b =
     (case b of
        [b0, b1] \<Rightarrow>
          Inr (case native of
                 LittleEndian \<Rightarrow> unat b0 + 256 * unat b1
               | BigEndian \<Rightarrow> 256 * unat b0 + unat b1)
      | _ \<Rightarrow> Inl StructError)"

record palette =
  pal_offset :: nat
  colors :: "nat list list"

definition Palette :: "byteorder \<Rightarrow> byte list \<Rightarrow> nat \<Rightarrow> error + palette" where
  "Palette native data offset =
     (if data = [] then Inr \<lparr>pal_offset = offset, colors = []\<rparr>
      else
        ebind (cut data 2) (\<lambda>chunks.
        ebind (map_try (\<lambda>c. unpack_H native (take 2 c)) chunks) (\<lambda>cs.
        Inr \<lparr>pal_offset = offset,
             colors = map (\<lambda>c. [(c AND 0x001F) * 8,
                                 drop_bit 5 (c AND 0x03E0) * 8,
                                 drop_bit 10 (c AND 0x7C00) * 8]) cs\<rparr>)))"

subsection \<open>Pixbuf\<close>

text \<open>
  The GdkPixbuf object, as the grid of its pixels: \<open>pixels\<close> lists the pixels in raster
  order (top to bottom, left to right), each pixel the list of its three channel values.
\<close>

record pixbuf =
  width :: nat
  height :: nat
  pixels :: "nat list list"

text \<open>
  \<^verbatim>\<open>Pixbuf.new(Colorspace.RGB, False, 8, w, h)\<close> followed by \<^verbatim>\<open>fill(rgba)\<close>: every
  pixel takes the red, green and blue bytes of the 32-bit value \<^verbatim>\<open>0xRRGGBBAA\<close>. The
  library makes no pixbuf of width or height zero.
\<close>

definition Pixbuf_new :: "nat \<Rightarrow> nat \<Rightarrow> error + pixbuf" where
  "Pixbuf_new w h =
     (if w = 0 \<or> h = 0 then Inl NoPixbuf
      else Inr \<lparr>width = w, height = h, pixels = replicate (w * h) [0, 0, 0]\<rparr>)"

definition fill :: "pixbuf \<Rightarrow> 32 word \<Rightarrow> pixbuf" where
  "fill pb rgba =
     pb\<lparr>pixels := replicate (width pb * height pb)
          [unat (drop_bit 24 rgba AND 0xFF),
           unat (drop_bit 16 rgba AND 0xFF),
           unat (drop_bit 8 rgba AND 0xFF)]\<rparr>"

text \<open>
  \<^verbatim>\<open>Pixbuf.new_from_data(data, 0, False, 8, w, h, rowstride, None, None)\<close>: pixel
  \<open>(x, y)\<close> is the three bytes of \<open>data\<close> at \<open>y * rowstride + 3 * x\<close>.
\<close>

definition Pixbuf_new_from_data :: "nat list \<Rightarrow> nat \<Rightarrow> nat \<Rightarrow> nat \<Rightarrow> error + pixbuf" where
  "Pixbuf_new_from_data data w h rowstride =
     (if w = 0 \<or> h = 0 then Inl NoPixbuf
      else Inr \<lparr>width = w, height = h,
                pixels = concat (map (\<lambda>y. map (\<lambda>x. take 3 (drop (y * rowstride + 3 * x) data))
                                              [0..<w]) [0..<h])\<rparr>)"

text \<open>
  \<^verbatim>\<open>scale_simple(dw, dh, InterpType.NEAREST)\<close>: destination pixel \<open>(x, y)\<close> takes the
  source pixel \<open>(x * width div dw, y * height div dh)\<close>.
\<close>

definition scale_simple :: "pixbuf \<Rightarrow> nat \<Rightarrow> nat \<Rightarrow> error + pixbuf" where
  "scale_simple pb dw dh =
     (if dw = 0 \<or> dh = 0 then Inl NoPixbuf
      else Inr \<lparr>width = dw, height = dh,
                pixels = concat (map (\<lambda>y. map (\<lambda>x. pixels pb ! ((y * height pb div dh) * width pb
                                                                  + x * width pb div dw))
                                              [0..<dw]) [0..<dh])\<rparr>)"

subsection \<open>Image\<close>

text \<open>
  The four nested loops of \<^verbatim>\<open>Image.__init__\<close> that build \<^verbatim>\<open>bytestring\<close>:
  \<^verbatim>\<open>for y in range(0, size[1]):
      for i in range(0, int(BLOCK / ROW)):
          for x in range(0, size[0]):
              r = blocks[y][x][i]
              for j in range(4):
                  bytestring.append(r[j] & 0x0F)
                  bytestring.append(r[j] >> 4)\<close>
\<close>

definition extract_pixels :: "byte list \<Rightarrow> nat list \<Rightarrow> error + nat list" where
  "extract_pixels r bytestring =
     for_loop [0..<4] (\<lambda>j bs.
       ebind (getitem r j) (\<lambda>v.
       Inr (bs @ [unat (v AND 0x0F), unat (drop_bit 4 v)]))) bytestring"

definition build_bytestring :: "byte list list list list \<Rightarrow> nat \<times> nat \<Rightarrow> error + nat list" where
  "build_bytestring blocks sz =
     for_loop [0..<snd sz] (\<lambda>y.
       for_loop [0..<BLOCK div ROW] (\<lambda>i.
         for_loop [0..<fst sz] (\<lambda>x bs.
           ebind (getitem blocks y) (\<lambda>blockrow.
           ebind (getitem blockrow x) (\<lambda>block.
           ebind (getitem block i) (\<lambda>r.
           extract_pixels r bs)))))) []"

text \<open>
  \<^verbatim>\<open>for i in bytestring: result += palette.colors[i]\<close>, then \<^verbatim>\<open>bytearray(result)\<close>,
  which raises ValueError on a value outside \<open>0..255\<close>.
\<close>

definition apply_palette :: "nat list \<Rightarrow> palette \<Rightarrow> error + nat list" where
  "apply_palette bytestring pal =
     for_loop bytestring (\<lambda>i result.
       ebind (getitem (colors pal) i) (\<lambda>c. Inr (result @ c))) []"

definition bytearray :: "nat list \<Rightarrow> error + nat list" where
  "bytearray result = (if list_all (\<lambda>v. v < 256) result then Inr result else Inl ValueError)"

text \<open>
  \<open>Image_bytestring\<close> is the list \<^verbatim>\<open>bytestring\<close> of \<^verbatim>\<open>Image.__init__\<close> for non-empty
  data (the three calls of \<^verbatim>\<open>cut\<close>, then the loops) and \<open>Image_result\<close> the buffer
  \<^verbatim>\<open>result\<close>; \<open>Image_unscaled\<close> is the pixbuf that \<^verbatim>\<open>new_from_data\<close> makes of it, and
  \<open>Image\<close> the attribute \<^verbatim>\<open>self.pixbuf\<close> the constructor leaves: the dummy image for
  empty data, the pixbuf scaled by two otherwise.
\<close>

definition Image_bytestring :: "byte list \<Rightarrow> nat \<times> nat \<Rightarrow> error + nat list" where
  "Image_bytestring data sz =
     ebind (cut data BLOCK) (\<lambda>blocks.
     ebind (map_try (\<lambda>b. cut b ROW) blocks) (\<lambda>blocks.
     ebind (cut blocks (fst sz)) (\<lambda>blocks.
     build_bytestring blocks sz)))"

definition Image_result :: "byte list \<Rightarrow> nat \<times> nat \<Rightarrow> palette \<Rightarrow> error + nat list" where
  "Image_result data sz pal =
     ebind (Image_bytestring data sz) (\<lambda>bytestring.
     ebind (apply_palette bytestring pal) bytearray)"

definition Image_unscaled :: "byte list \<Rightarrow> nat \<times> nat \<Rightarrow> palette \<Rightarrow> error + pixbuf" where
  "Image_unscaled data sz pal =
     ebind (Image_result data sz pal) (\<lambda>result.
     Pixbuf_new_from_data result (8 * fst sz) (8 * snd sz) (8 * fst sz * 3))"

definition Image :: "byte list \<Rightarrow> nat \<times> nat \<Rightarrow> palette \<Rightarrow> error + pixbuf" where
  "Image data sz pal =
     (if data = [] then
        ebind (Pixbuf_new (fst sz * 8 * 2) (snd sz * 8 * 2)) (\<lambda>pb. Inr (fill pb 0xAAAAAAFF))
      else
        ebind (Image_unscaled data sz pal) (\<lambda>pb.
        scale_simple pb (8 * fst sz * 2) (8 * snd sz * 2)))"

subsection \<open>Sprite\<close>

record sprite =
  sp_name :: string
  sp_offset :: nat
  sp_size :: "nat \<times> nat"
  sp_length :: nat
  sp_palette :: palette
  sp_image :: pixbuf

definition Sprite :: "byte list \<Rightarrow> nat \<Rightarrow> nat \<times> nat \<Rightarrow> palette \<Rightarrow> error + sprite" where
  "Sprite data offset sz pal =
     ebind (Image data sz pal) (\<lambda>img.
     Inr \<lparr>sp_name = '''', sp_offset = offset, sp_size = sz,
          sp_length = fst sz * snd sz * BLOCK, sp_palette = pal, sp_image = img\<rparr>)"

subsection \<open>ROM.search\<close>

text \<open>
  What \<^verbatim>\<open>open(self.filename, 'rb')\<close> finds: no file (FileNotFoundError), a file that
  may not be read (PermissionError), or a file with its bytes. An open file is its
  contents and the position of its cursor; \<open>reads\<close> records every \<^verbatim>\<open>read\<close> call, as the
  position it started at and the number of bytes it asked for.
\<close>

datatype source = NotFound | NoAccess | Found "byte list"

record rom_file =
  contents :: "byte list"
  pos :: nat
  reads :: "(nat \<times> nat) list"

definition open_rb :: "source \<Rightarrow> error + rom_file" where
  "open_rb src =
     (case src of
        NotFound \<Rightarrow> Inl FileNotFoundError
      | NoAccess \<Rightarrow> Inl PermissionError
      | Found bytes \<Rightarrow> Inr \<lparr>contents = bytes, pos = 0, reads = []\<rparr>)"

definition seek :: "rom_file \<Rightarrow> nat \<Rightarrow> rom_file" where
  "seek f p = f\<lparr>pos := p\<rparr>"

definition read :: "rom_file \<Rightarrow> nat \<Rightarrow> byte list \<times> rom_file" where
  "read f n =
     (let data = take n (drop (pos f) (contents f))
      in (data, f\<lparr>pos := pos f + length data, reads := reads f @ [(pos f, n)]\<rparr>))"

text \<open>
  The loop \<^verbatim>\<open>for os in range(...): sprite = Sprite(f.read(length), os, size, palette);
  sprites.append(sprite)\<close>. Its state is the open file and the list \<^verbatim>\<open>sprites\<close>.
\<close>

definition read_sprites ::
  "nat list \<Rightarrow> nat \<Rightarrow> nat \<times> nat \<Rightarrow> palette \<Rightarrow> rom_file \<times> sprite list \<Rightarrow> error + rom_file \<times> sprite list"
where
  "read_sprites offsets len sz pal st =
     for_loop offsets (\<lambda>os (f, sprites).
       (case read f len of (data, f') \<Rightarrow>
          ebind (Sprite data os sz pal) (\<lambda>sprite. Inr (f', sprites @ [sprite])))) st"

text \<open>
  The body of the \<^verbatim>\<open>with\<close> block. The result is the list \<^verbatim>\<open>sprites\<close> or the exception
  that leaves the block.
\<close>

definition search_file ::
  "byteorder \<Rightarrow> rom_file \<Rightarrow> nat \<Rightarrow> nat \<times> nat \<Rightarrow> nat \<Rightarrow> nat \<Rightarrow> error + rom_file \<times> sprite list"
where
  "search_file native f offset sz paloffset qty =
     (case read (seek f paloffset) 32 of (paldata, f1) \<Rightarrow>
        ebind (Palette native paldata paloffset) (\<lambda>pal.
        let f2 = seek f1 offset;
            len = fst sz * snd sz * BLOCK
        in ebind (py_range offset (offset + qty * len) len) (\<lambda>offsets.
           read_sprites offsets len sz pal (f2, []))))"

text \<open>
  \<^verbatim>\<open>ROM.search\<close>: only \<^verbatim>\<open>open\<close> can raise FileNotFoundError, which the method
  catches (it prints the exception and returns the still empty list); every other exception
  reaches the caller.
\<close>

definition search ::
  "byteorder \<Rightarrow> source \<Rightarrow> nat \<Rightarrow> nat \<times> nat \<Rightarrow> nat \<Rightarrow> nat \<Rightarrow> error + sprite list"
where
  "search native src offset sz paloffset qty =
     (case open_rb src of
        Inl e \<Rightarrow> (if e = FileNotFoundError then Inr [] else Inl e)
      | Inr f \<Rightarrow>
          (case search_file native f offset sz paloffset qty of
             Inl e \<Rightarrow> Inl e
           | Inr (f', sprites) \<Rightarrow> Inr sprites))"

subsection \<open>The specification's reading of the formats\<close>


definition spec_rgb :: "nat \<Rightarrow> nat list" where
  "spec_rgb c =
     [(c AND 0x001F) * 8, drop_bit 5 (c AND 0x03E0) * 8, drop_bit 10 (c AND 0x7C00) * 8]"

text \<open>
  A byte \<open>v\<close> holds the pixel \<open>v & 0x0F\<close>, followed to its right by the pixel \<open>v >> 4\<close>.
  Tile \<open>(tileRow, tileCol)\<close> of a sprite \<open>tilesWide\<close> tiles wide is the 32-byte chunk
  number \<open>tileRow * tilesWide + tileCol\<close>; sub-row \<open>subRow\<close> of a tile is its four bytes
  from \<open>4 * subRow\<close>, decoded to eight pixel indices. The scan order is the
  specification's nested loop over \<open>tileRow\<close>, \<open>subRow\<close> and \<open>tileCol\<close>.
\<close>

definition nibbles :: "byte \<Rightarrow> nat list" where
  "nibbles v = [unat (v AND 0x0F), unat (drop_bit 4 v)]"

definition spec_tile :: "byte list \<Rightarrow> nat \<Rightarrow> nat \<Rightarrow> nat \<Rightarrow> byte list" where
  "spec_tile data tilesWide tileRow tileCol =
     take 32 (drop ((tileRow * tilesWide + tileCol) * 32) data)"

definition spec_subrow :: "byte list \<Rightarrow> nat \<Rightarrow> nat list" where
  "spec_subrow tile subRow = concat (map nibbles (take 4 (drop (4 * subRow) tile)))"

definition spec_indices :: "byte list \<Rightarrow> nat \<times> nat \<Rightarrow> nat list" where
  "spec_indices data sz =
     concat (map (\<lambda>tileRow.
       concat (map (\<lambda>subRow.
         concat (map (\<lambda>tileCol. spec_subrow (spec_tile data (fst sz) tileRow tileCol) subRow)
                     [0..<fst sz]))
         [0..<8]))
       [0..<snd sz])"

text \<open>The list that \<open>cut\<close> returns for a positive chunk size.\<close>

definition chunks :: "'a list \<Rightarrow> nat \<Rightarrow> 'a list list" where
  "chunks xs n = map (\<lambda>k. take n (drop (k * n) xs)) [0..<(length xs + n - 1) div n]"

text \<open>The dummy image of a sprite \<open>w\<close> by \<open>h\<close> tiles, as the code builds it.\<close>

definition dummy_image :: "nat \<times> nat \<Rightarrow> pixbuf" where
  "dummy_image sz =
     \<lparr>width = 16 * fst sz, height = 16 * snd sz,
      pixels = replicate (16 * fst sz * (16 * snd sz)) [170, 170, 170]\<rparr>"

text \<open>The sprite that \<open>Sprite\<close> makes of an empty read at offset \<open>os\<close>.\<close>

definition dummy_sprite :: "nat \<times> nat \<Rightarrow> palette \<Rightarrow> nat \<Rightarrow> sprite" where
  "dummy_sprite sz pal os =
     \<lparr>sp_name = '''', sp_offset = os, sp_size = sz, sp_length = fst sz * snd sz * BLOCK,
      sp_palette = pal, sp_image = dummy_image sz\<rparr>"

section \<open>Properties\<close>

subsection \<open>Sequencing, loops and \<open>cut\<close>\<close>

lemma ebind_Inr [simp]: "ebind (Inr v) f = f v"
  by (simp add: ebind_def)

lemma ebind_Inl [simp]: "ebind (Inl e) f = Inl e"
  by (simp add: ebind_def)

lemma map_try_Inr:
  "(\<And>x. x \<in> set xs \<Longrightarrow> f x = Inr (g x)) \<Longrightarrow> map_try f xs = Inr (map g xs)"
  by (induction xs) simp_all

lemma map_try_map: "map_try f (map g xs) = map_try (f \<circ> g) xs"
  by (induction xs) simp_all

lemma cut_pos:
  "0 < n \<Longrightarrow>
   cut xs n = Inr (map (\<lambda>k. take n (drop (k * n) xs)) [0..<(length xs + n - 1) div n])"
  by (simp add: cut_def py_range_def comp_def)

lemma cut_exact:
  assumes "0 < n" and "length xs = m * n"
  shows "cut xs n = Inr (map (\<lambda>k. take n (drop (k * n) xs)) [0..<m])"
proof -
  have "(m * n + n - 1) div n = m"
    using assms(1)
    by (metis Suc_pred' add_Suc_right div_mult_self3 diff_Suc_1 div_less lessI
        add.right_neutral less_not_refl)
  then show ?thesis using assms by (simp add: cut_pos)
qed

lemma take2_drop: "Suc i < length xs \<Longrightarrow> take 2 (drop i xs) = [xs ! i, xs ! Suc i]"
proof -
  assume "Suc i < length xs"
  then have "drop i xs = xs ! i # xs ! Suc i # drop (Suc (Suc i)) xs"
    by (simp add: Cons_nth_drop_Suc Suc_lessD)
  then show ?thesis by (simp add: numeral_2_eq_2)
qed

subsection \<open>Palette decoding\<close>

lemma and31: "(c::nat) AND 0x001F = c mod 32"
proof -
  have "c AND mask 5 = take_bit 5 c" by (simp add: take_bit_eq_mask)
  then show ?thesis by (simp add: take_bit_eq_mod mask_eq_exp_minus_1)
qed

lemma and3E0: "drop_bit 5 ((c::nat) AND 0x03E0) = (c div 32) mod 32"
proof -
  have "drop_bit 5 (0x03E0::nat) = 0x001F" by (simp add: drop_bit_eq_div)
  then have "drop_bit 5 (c AND 0x03E0) = drop_bit 5 c AND 0x001F"
    by (simp only: drop_bit_and)
  then show ?thesis by (simp add: and31 drop_bit_eq_div)
qed

lemma and7C00: "drop_bit 10 ((c::nat) AND 0x7C00) = (c div 1024) mod 32"
proof -
  have "drop_bit 10 (0x7C00::nat) = 0x001F" by (simp add: drop_bit_eq_div)
  then have "drop_bit 10 (c AND 0x7C00) = drop_bit 10 c AND 0x001F"
    by (simp only: drop_bit_and)
  then show ?thesis by (simp add: and31 drop_bit_eq_div)
qed

lemma spec_rgb_mod: "spec_rgb c = [c mod 32 * 8, c div 32 mod 32 * 8, c div 1024 mod 32 * 8]"
  by (simp only: spec_rgb_def and31 and3E0 and7C00)

lemma spec_rgb_channel:
  assumes "v \<in> set (spec_rgb c)"
  shows "8 dvd v \<and> v \<le> 248 \<and> v \<noteq> 255"
proof -
  obtain q where "v = q mod 32 * 8"
    using assms unfolding spec_rgb_mod by auto
  moreover have "q mod 32 < 32" by simp
  ultimately show ?thesis by (auto simp del: mod_less_divisor)
qed

lemma length_spec_rgb [simp]: "length (spec_rgb c) = 3"
  by (simp add: spec_rgb_def)

lemma unpack_H_pair: "\<exists>c. unpack_H native [b0, b1] = Inr c"
  by (simp add: unpack_H_def)


lemma unpack_H_cases: "unpack_H native b = Inl StructError \<or> (\<exists>y. unpack_H native b = Inr y)"
  by (auto simp: unpack_H_def split: list.splits)

lemma unpack_H_error: "length b \<noteq> 2 \<Longrightarrow> unpack_H native b = Inl StructError"
  by (cases b rule: list.exhaust[case_product list.exhaust[case_product list.exhaust]])
     (auto simp: unpack_H_def split: list.splits)

text \<open>The 16-bit values that \<open>Palette\<close> unpacks from an input of even length.\<close>

lemma Palette_even:
  assumes "length data = 2 * n" and "0 < n"
  shows "\<exists>cs. length cs = n \<and>
     (\<forall>k<n. unpack_H native [data ! (2 * k), data ! (2 * k + 1)] = Inr (cs ! k)) \<and>
     Palette native data offset = Inr \<lparr>pal_offset = offset, colors = map spec_rgb cs\<rparr>"
proof -
  define g where "g k = projr (unpack_H native [data ! (2 * k), data ! (2 * k + 1)])" for k
  have g: "unpack_H native [data ! (2 * k), data ! (2 * k + 1)] = Inr (g k)" for k
    using unpack_H_pair [of native "data ! (2 * k)" "data ! (2 * k + 1)"]
    by (auto simp: g_def)
  have ne: "data \<noteq> []" using assms by auto
  have c: "cut data 2 = Inr (map (\<lambda>k. take 2 (drop (k * 2) data)) [0..<n])"
    using assms by (intro cut_exact) simp_all
  have h: "unpack_H native (take 2 (drop (k * 2) data)) = Inr (g k)" if "k \<in> set [0..<n]" for k
  proof -
    from that have "Suc (k * 2) < length data" using assms by simp
    then have "take 2 (drop (k * 2) data) = [data ! (k * 2), data ! Suc (k * 2)]"
      by (rule take2_drop)
    then show ?thesis using g [of k] by (simp add: mult.commute)
  qed
  have "map_try ((\<lambda>c. unpack_H native (take 2 c)) \<circ> (\<lambda>k. take 2 (drop (k * 2) data))) [0..<n]
       = Inr (map g [0..<n])"
    by (rule map_try_Inr) (use h in simp)
  then have u: "map_try (\<lambda>c. unpack_H native (take 2 c)) (map (\<lambda>k. take 2 (drop (k * 2) data)) [0..<n])
       = Inr (map g [0..<n])"
    by (simp add: map_try_map)
  have "Palette native data offset = Inr \<lparr>pal_offset = offset, colors = map spec_rgb (map g [0..<n])\<rparr>"
    using ne by (simp add: Palette_def c u spec_rgb_def comp_def)
  moreover have "\<forall>k<n. unpack_H native [data ! (2 * k), data ! (2 * k + 1)] = Inr (map g [0..<n] ! k)"
    using g by simp
  ultimately show ?thesis
    by (intro exI [of _ "map g [0..<n]"]) simp
qed

lemma map_try_fails:
  assumes "\<And>x. x \<in> set xs \<Longrightarrow> f x = Inl e \<or> (\<exists>y. f x = Inr y)"
    and "\<exists>x\<in>set xs. f x = Inl e"
  shows "map_try f xs = Inl e"
  using assms
proof (induction xs)
  case Nil
  then show ?case by simp
next
  case (Cons x xs)
  show ?case
  proof (cases "f x")
    case (Inl e')
    with Cons.prems(1) [of x] show ?thesis by simp
  next
    case (Inr y)
    with Cons.prems(2) have "\<exists>x\<in>set xs. f x = Inl e" by auto
    with Cons.IH Cons.prems(1) have "map_try f xs = Inl e" by simp
    with Inr show ?thesis by simp
  qed
qed

lemma Palette_odd:
  assumes "odd (length data)"
  shows "Palette native data offset = Inl StructError"
proof -
  from assms obtain n where n: "length data = 2 * n + 1" by (auto elim: oddE)
  have ne: "data \<noteq> []" using n by auto
  have "(length data + 2 - 1) div 2 = Suc n" using n by simp
  then have c: "cut data 2 = Inr (map (\<lambda>k. take 2 (drop (k * 2) data)) [0..<Suc n])"
    using cut_pos [of 2 data] by simp
  have "map_try (\<lambda>c. unpack_H native (take 2 c)) (map (\<lambda>k. take 2 (drop (k * 2) data)) [0..<Suc n])
     = Inl StructError"
  proof (rule map_try_fails)
    fix x
    show "unpack_H native (take 2 x) = Inl StructError \<or> (\<exists>y. unpack_H native (take 2 x) = Inr y)"
      by (rule unpack_H_cases)
  next
    have "length (take 2 (take 2 (drop (n * 2) data))) \<noteq> 2" using n by simp
    then have "unpack_H native (take 2 (take 2 (drop (n * 2) data))) = Inl StructError"
      by (rule unpack_H_error)
    then show "\<exists>x\<in>set (map (\<lambda>k. take 2 (drop (k * 2) data)) [0..<Suc n]).
        unpack_H native (take 2 x) = Inl StructError"
      by (intro bexI [of _ "take 2 (drop (n * 2) data)"]) auto
  qed
  then show ?thesis using ne by (simp add: Palette_def c)
qed



subsection \<open>Short palettes and missing files\<close>

lemma search_palette_error:
  assumes "Palette native (take 32 (drop paloffset bytes)) paloffset = Inl e"
  shows "search native (Found bytes) offset sz paloffset qty = Inl e"
  using assms
  by (simp add: search_def open_rb_def search_file_def read_def seek_def Let_def)

text \<open>
  C7, as the code has it. \<open>Palette\<close> does not check the length of a non-empty input:
  an input of odd length fails with \<^verbatim>\<open>struct.error\<close>, and this failure of the palette read
  aborts the whole \<open>search\<close> call; a non-empty input of even length \<open>2n\<close> is decoded to
  \<open>n\<close> colours without an error. The empty input gives exactly 0 colours.
\<close>

theorem palette_short_input:
  "(odd (length data) \<longrightarrow> Palette native data offset = Inl StructError) \<and>
   (odd (length (take 32 (drop paloffset bytes))) \<longrightarrow>
      search native (Found bytes) soffset sz paloffset qty = Inl StructError) \<and>
   (data \<noteq> [] \<and> even (length data) \<longrightarrow>
      (\<exists>pal. Palette native data offset = Inr pal \<and> length (colors pal) = length data div 2)) \<and>
   Palette native [] offset = Inr \<lparr>pal_offset = offset, colors = []\<rparr>"
proof (intro conjI impI)
  assume "odd (length data)"
  then show "Palette native data offset = Inl StructError" by (rule Palette_odd)
next
  assume "odd (length (take 32 (drop paloffset bytes)))"
  then have "Palette native (take 32 (drop paloffset bytes)) paloffset = Inl StructError"
    by (rule Palette_odd)
  then show "search native (Found bytes) soffset sz paloffset qty = Inl StructError"
    by (rule search_palette_error)
next
  assume a: "data \<noteq> [] \<and> even (length data)"
  then obtain n where n: "length data = 2 * n" by (auto elim: evenE)
  with a have "0 < n" by (cases n) auto
  from Palette_even [OF n this, of native offset] n
  show "\<exists>pal. Palette native data offset = Inr pal \<and> length (colors pal) = length data div 2"
    by auto
next
  show "Palette native [] offset = Inr \<lparr>pal_offset = offset, colors = []\<rparr>"
    by (simp add: Palette_def)
qed

theorem palette_short_input_witness:
  "odd (length [0x01 :: byte]) \<and>
   Palette LittleEndian [0x01] 0 = Inl StructError \<and>
   search LittleEndian (Found [0x01]) 0 (1, 1) 0 1 = Inl StructError \<and>
   ([0x00, 0x00 :: byte] \<noteq> [] \<and> even (length [0x00, 0x00 :: byte])) \<and>
   (\<exists>pal. Palette LittleEndian [0x00, 0x00] 0 = Inr pal \<and> length (colors pal) = 1)"
  using palette_short_input [of "[0x01]" LittleEndian 0 0 "[0x01]" 0 "(1, 1)" 1]
    palette_short_input [of "[0x00, 0x00]" LittleEndian 0 0 "[]" 0 "(1, 1)" 1]
  by simp

theorem palette_short_counterexample:
  "Palette LittleEndian [0x00, 0x00] 0 = Inr \<lparr>pal_offset = 0, colors = [[0, 0, 0]]\<rparr>"
  by (simp add: Palette_def cut_def py_range_def unpack_H_def)

text \<open>
  C8, as the code has it. When the file does not exist (\<^verbatim>\<open>open\<close> raises
  FileNotFoundError), \<open>search\<close> returns the empty list and raises nothing. Any other
  failure of \<^verbatim>\<open>open\<close> reaches the caller: the method catches FileNotFoundError only,
  so a file that may not be read makes every call raise PermissionError.
\<close>

theorem search_not_found:
  "search native NotFound offset sz paloffset qty = Inr [] \<and>
   search native NoAccess offset sz paloffset qty = Inl PermissionError"
  by (simp add: search_def open_rb_def)

theorem search_no_access_counterexample:
  "search LittleEndian NoAccess 0 (1, 1) 0 1 = Inl PermissionError"
  by (simp add: search_def open_rb_def)

subsection \<open>The dummy image\<close>

lemma fill_gray:
  "fill pb 0xAAAAAAFF = pb\<lparr>pixels := replicate (width pb * height pb) [170, 170, 170]\<rparr>"
  by (simp add: fill_def)

lemma Image_dummy:
  assumes "1 \<le> w" and "1 \<le> h"
  shows "Image [] (w, h) pal = Inr (dummy_image (w, h))"
  using assms by (simp add: Image_def Pixbuf_new_def fill_gray dummy_image_def mult.commute)

lemma Image_scaled_dims:
  assumes "data \<noteq> []" and "Image data (w, h) pal = Inr pb"
  shows "width pb = 16 * w \<and> height pb = 16 * h"
proof -
  from assms obtain u where "scale_simple u (8 * w * 2) (8 * h * 2) = Inr pb"
    by (auto simp: Image_def ebind_def split: sum.splits)
  then show ?thesis
    by (auto simp: scale_simple_def split: if_splits)
qed

text \<open>
  C5, as the code has it. For a tile grid \<open>(w, h)\<close> with both components at least 1, the
  dummy image has the final dimensions of the decoded case, which are \<open>16 * w\<close> by
  \<open>16 * h\<close> pixels (the code doubles the \<open>8 * w\<close> by \<open>8 * h\<close> pixels for display), and
  every pixel is \<open>(170, 170, 170)\<close>.
\<close>

theorem placeholder_image:
  assumes "1 \<le> w" and "1 \<le> h"
  shows "Image [] (w, h) pal =
      Inr \<lparr>width = 16 * w, height = 16 * h,
           pixels = replicate (16 * w * (16 * h)) [170, 170, 170]\<rparr> \<and>
    (\<forall>data pal' pb. data \<noteq> [] \<and> Image data (w, h) pal' = Inr pb \<longrightarrow>
       width pb = 16 * w \<and> height pb = 16 * h)"
  using Image_dummy [OF assms, of pal] Image_scaled_dims
  by (simp add: dummy_image_def) blast

theorem placeholder_image_witness:
  "(1::nat) \<le> 2 \<and> (1::nat) \<le> 3 \<and>
   Image [] (2, 3) \<lparr>pal_offset = 0, colors = []\<rparr> =
     Inr \<lparr>width = 32, height = 48, pixels = replicate 1536 [170, 170, 170]\<rparr>"
proof -
  have a: "(1::nat) \<le> 2" and b: "(1::nat) \<le> 3" by simp_all
  from placeholder_image [OF a b, of "\<lparr>pal_offset = 0, colors = []\<rparr>"]
  show ?thesis by simp
qed

theorem placeholder_counterexample:
  "Image [] (2, 3) \<lparr>pal_offset = 0, colors = []\<rparr> =
     Inr \<lparr>width = 32, height = 48, pixels = replicate 1536 [170, 170, 170]\<rparr> \<and>
   Image [] (2, 3) \<lparr>pal_offset = 0, colors = []\<rparr> \<noteq>
     Inr \<lparr>width = 16, height = 24, pixels = replicate 384 [170, 170, 170]\<rparr>"
  by (simp add: Image_def Pixbuf_new_def fill_def)

subsection \<open>The loops of \<open>Image\<close> on a buffer of the required length\<close>

lemma for_loop_appends:
  "(\<And>i s. i \<in> set js \<Longrightarrow> body i s = Inr (s @ g i)) \<Longrightarrow>
   for_loop js body s = Inr (s @ concat (map g js))"
  by (induction js arbitrary: s) simp_all

lemma getitem_Inr [simp]: "i < length xs \<Longrightarrow> getitem xs i = Inr (xs ! i)"
  by (simp add: getitem_def)

lemma getitem_Inl [simp]: "length xs \<le> i \<Longrightarrow> getitem xs i = Inl IndexError"
  by (simp add: getitem_def)

lemma upt_4: "[0..<4] = [0, 1, 2, 3]"
  by (simp add: upt_rec)

lemma extract_pixels_row:
  assumes "length r = 4"
  shows "extract_pixels r bs = Inr (bs @ concat (map nibbles r))"
proof -
  from assms obtain a b c d where r: "r = [a, b, c, d]"
    by (auto simp: length_Suc_conv numeral_eq_Suc)
  show ?thesis
    by (simp add: r extract_pixels_def upt_4 nibbles_def)
qed

text \<open>The value of \<^verbatim>\<open>blocks\<close> after the three calls of \<^verbatim>\<open>cut\<close>.\<close>

lemma length_spec_tile:
  "(tileRow * w + tileCol) * 32 + 32 \<le> length data \<Longrightarrow> length (spec_tile data w tileRow tileCol) = 32"
  by (simp add: spec_tile_def)

lemma Image_blocks:
  assumes "0 < w" and "length data = w * h * 32"
  shows "ebind (cut data BLOCK) (\<lambda>blocks.
         ebind (map_try (\<lambda>b. cut b ROW) blocks) (\<lambda>blocks. cut blocks w)) =
     Inr (map (\<lambda>y. take w (drop (y * w)
            (map (\<lambda>k. map (\<lambda>i. take 4 (drop (i * 4) (take 32 (drop (k * 32) data)))) [0..<8])
                 [0..<w * h]))) [0..<h])"
proof -
  have c1: "cut data BLOCK = Inr (map (\<lambda>k. take 32 (drop (k * 32) data)) [0..<w * h])"
    using assms by (simp add: BLOCK_def ROW_def cut_exact)
  have c2: "map_try ((\<lambda>b. cut b ROW) \<circ> (\<lambda>k. take 32 (drop (k * 32) data))) [0..<w * h] =
      Inr (map (\<lambda>k. map (\<lambda>i. take 4 (drop (i * 4) (take 32 (drop (k * 32) data)))) [0..<8]) [0..<w * h])"
  proof (rule map_try_Inr)
    fix k assume "k \<in> set [0..<w * h]"
    then have "k * 32 + 32 \<le> length data" using assms(2) by simp
    then have "length (take 32 (drop (k * 32) data)) = 8 * 4" by simp
    then have "cut (take 32 (drop (k * 32) data)) 4 =
        Inr (map (\<lambda>i. take 4 (drop (i * 4) (take 32 (drop (k * 32) data)))) [0..<8])"
      by (intro cut_exact) simp_all
    then show "((\<lambda>b. cut b ROW) \<circ> (\<lambda>k. take 32 (drop (k * 32) data))) k =
        Inr (map (\<lambda>i. take 4 (drop (i * 4) (take 32 (drop (k * 32) data)))) [0..<8])"
      by (simp add: ROW_def)
  qed
  have c3: "cut (map (\<lambda>k. map (\<lambda>i. take 4 (drop (i * 4) (take 32 (drop (k * 32) data)))) [0..<8]) [0..<w * h]) w =
      Inr (map (\<lambda>y. take w (drop (y * w)
            (map (\<lambda>k. map (\<lambda>i. take 4 (drop (i * 4) (take 32 (drop (k * 32) data)))) [0..<8])
                 [0..<w * h]))) [0..<h])"
    using assms(1) by (intro cut_exact) (simp_all add: mult.commute)
  show ?thesis
    by (simp only: c1 ebind_Inr map_try_map c2 c3)
qed

lemma Image_blocks_item:
  fixes data :: "byte list" and w h :: nat
  assumes "y < h" and "x < w" and "i < 8"
  defines "blocks1 \<equiv> map (\<lambda>k. map (\<lambda>i. take 4 (drop (i * 4) (take 32 (drop (k * 32) data)))) [0..<8])
                 [0..<w * h]"
  shows "ebind (getitem (map (\<lambda>y. take w (drop (y * w) blocks1)) [0..<h]) y) (\<lambda>blockrow.
         ebind (getitem blockrow x) (\<lambda>block. getitem block i)) =
     Inr (take 4 (drop (4 * i) (spec_tile data w y x)))"
proof -
  have k: "y * w + x < w * h"
  proof -
    have "y * w + x < y * w + w" using assms(2) by simp
    also have "\<dots> = (Suc y) * w" by simp
    also have "\<dots> \<le> h * w" using assms(1) by (intro mult_le_mono1) simp
    finally show ?thesis by (simp add: mult.commute)
  qed
  have l: "length blocks1 = w * h" by (simp add: blocks1_def)
  have "x < length (take w (drop (y * w) blocks1))" using k assms(2) l by simp
  moreover have "take w (drop (y * w) blocks1) ! x = blocks1 ! (y * w + x)"
  proof -
    have "y * w \<le> length blocks1" using k l by linarith
    then show ?thesis using assms(2) by (simp add: nth_drop)
  qed
  moreover have "blocks1 ! (y * w + x) =
      map (\<lambda>i. take 4 (drop (i * 4) (take 32 (drop ((y * w + x) * 32) data)))) [0..<8]"
    using k by (simp add: blocks1_def)
  ultimately show ?thesis
    using assms(1,3) by (simp add: spec_tile_def mult.commute)
qed


lemma ebind_assoc: "ebind (ebind m f) g = ebind m (\<lambda>x. ebind (f x) g)"
  by (cases m) simp_all

lemma tile_index_bound:
  assumes "y < h" and "x < (w::nat)"
  shows "(y * w + x) * 32 + 32 \<le> w * h * 32"
proof -
  have "y * w + x < y * w + w" using assms(2) by simp
  also have "\<dots> = (Suc y) * w" by simp
  also have "\<dots> \<le> h * w" using assms(1) by (intro mult_le_mono1) simp
  finally have "y * w + x < w * h" by (simp add: mult.commute)
  then have "Suc (y * w + x) \<le> w * h" by simp
  then have "Suc (y * w + x) * 32 \<le> w * h * 32" by (rule mult_le_mono1)
  then show ?thesis by simp
qed

lemma Image_bytestring_exact:
  assumes "0 < w" and "length data = w * h * 32"
  shows "Image_bytestring data (w, h) = Inr (spec_indices data (w, h))"
proof -
  define blocks1 where "blocks1 =
    map (\<lambda>k. map (\<lambda>i. take 4 (drop (i * 4) (take 32 (drop (k * 32) data)))) [0..<8]) [0..<w * h]"
  define blocks where "blocks = map (\<lambda>y. take w (drop (y * w) blocks1)) [0..<h]"
  have inner: "ebind (getitem blocks y) (\<lambda>blockrow.
         ebind (getitem blockrow x) (\<lambda>block.
         ebind (getitem block i) (\<lambda>r. extract_pixels r bs))) =
       Inr (bs @ spec_subrow (spec_tile data w y x) i)"
    if "y < h" and "i < 8" and "x < w" for y i x bs
  proof -
    have "ebind (getitem blocks y) (\<lambda>blockrow.
         ebind (getitem blockrow x) (\<lambda>block. getitem block i)) =
       Inr (take 4 (drop (4 * i) (spec_tile data w y x)))"
      unfolding blocks_def blocks1_def using that by (intro Image_blocks_item)
    then have "ebind (getitem blocks y) (\<lambda>blockrow.
         ebind (getitem blockrow x) (\<lambda>block.
         ebind (getitem block i) (\<lambda>r. extract_pixels r bs))) =
       extract_pixels (take 4 (drop (4 * i) (spec_tile data w y x))) bs"
      by (simp flip: ebind_assoc)
    moreover have "length (spec_tile data w y x) = 32"
      using tile_index_bound [OF that(1,3)] assms(2) by (intro length_spec_tile) simp
    then have "length (take 4 (drop (4 * i) (spec_tile data w y x))) = 4"
      using that(2) by simp
    ultimately show ?thesis
      by (simp add: extract_pixels_row spec_subrow_def)
  qed
  have cols: "for_loop [0..<w] (\<lambda>x bs.
         ebind (getitem blocks y) (\<lambda>blockrow.
         ebind (getitem blockrow x) (\<lambda>block.
         ebind (getitem block i) (\<lambda>r. extract_pixels r bs)))) bs =
       Inr (bs @ concat (map (\<lambda>x. spec_subrow (spec_tile data w y x) i) [0..<w]))"
    if "y < h" and "i < 8" for y i bs
    by (rule for_loop_appends) (use that inner in simp)
  have rows: "for_loop [0..<8] (\<lambda>i. for_loop [0..<w] (\<lambda>x bs.
         ebind (getitem blocks y) (\<lambda>blockrow.
         ebind (getitem blockrow x) (\<lambda>block.
         ebind (getitem block i) (\<lambda>r. extract_pixels r bs))))) bs =
       Inr (bs @ concat (map (\<lambda>i. concat (map (\<lambda>x. spec_subrow (spec_tile data w y x) i) [0..<w])) [0..<8]))"
    if "y < h" for y bs
    by (rule for_loop_appends) (use that cols in simp)
  have "build_bytestring blocks (w, h) = Inr ([] @ spec_indices data (w, h))"
    unfolding build_bytestring_def spec_indices_def
    by (rule for_loop_appends) (use rows in \<open>simp add: BLOCK_def ROW_def\<close>)
  moreover have "Image_bytestring data (w, h) =
      ebind (ebind (cut data BLOCK) (\<lambda>blocks.
             ebind (map_try (\<lambda>b. cut b ROW) blocks) (\<lambda>blocks. cut blocks w)))
        (\<lambda>blocks. build_bytestring blocks (w, h))"
    by (simp add: Image_bytestring_def ebind_assoc)
  ultimately show ?thesis
    using Image_blocks [OF assms] by (simp add: blocks_def blocks1_def)
qed

subsection \<open>Slices of the scan order\<close>

lemma length_nibbles [simp]: "length (nibbles v) = 2"
  by (simp add: nibbles_def)

lemma lo_nibble: "unat ((v::byte) AND 0x0F) < 16"
proof -
  have "unat (v AND 0x0F) = unat v AND 0x0F" by (simp add: unsigned_and_eq)
  also have "\<dots> = take_bit 4 (unat v)"
    by (simp add: take_bit_eq_mask mask_eq_exp_minus_1)
  also have "\<dots> < 16" by (simp add: take_bit_eq_mod)
  finally show ?thesis .
qed

lemma hi_nibble: "unat (drop_bit 4 (v::byte)) < 16"
proof -
  have "unat (drop_bit 4 v) = drop_bit 4 (unat v)" by (rule unat_drop_bit_eq)
  also have "\<dots> = unat v div 16" by (simp add: drop_bit_eq_div)
  also have "\<dots> < 16" using unsigned_less [of v, where 'a = nat] by simp
  finally show ?thesis .
qed

lemma nibbles_bound: "i \<in> set (nibbles v) \<Longrightarrow> i < 16"
  using lo_nibble [of v] hi_nibble [of v] by (auto simp: nibbles_def)

lemma length_concat_uniform:
  "(\<And>x. x \<in> set xs \<Longrightarrow> length (g x) = n) \<Longrightarrow> length (concat (map g xs)) = length xs * n"
  by (induction xs) simp_all

lemma length_spec_subrow:
  "4 * subRow + 4 \<le> length tile \<Longrightarrow> length (spec_subrow tile subRow) = 8"
proof -
  assume "4 * subRow + 4 \<le> length tile"
  then have "length (take 4 (drop (4 * subRow) tile)) = 4" by simp
  then show ?thesis
    unfolding spec_subrow_def by (subst length_concat_uniform [where n = 2]) simp_all
qed

lemma spec_subrow_bound: "i \<in> set (spec_subrow tile subRow) \<Longrightarrow> i < 16"
  by (auto simp: spec_subrow_def nibbles_bound)

lemma spec_indices_bound: "i \<in> set (spec_indices data sz) \<Longrightarrow> i < 16"
  by (auto simp: spec_indices_def spec_subrow_bound)

lemma slice_concat_uniform:
  assumes "\<And>j. j < n \<Longrightarrow> length (g j) = L" and "k < n" and "r + m \<le> L"
  shows "take m (drop (k * L + r) (concat (map g [0..<n]))) = take m (drop r (g k))"
  using assms
proof (induction n arbitrary: k g)
  case 0
  then show ?case by simp
next
  case (Suc n)
  have unroll: "concat (map g [0..<Suc n]) = g 0 @ concat (map (\<lambda>j. g (Suc j)) [0..<n])"
    by (simp add: upt_conv_Cons map_Suc_upt [symmetric] comp_def del: upt_Suc)
  have l0: "length (g 0) = L" using Suc.prems(1) by simp
  show ?case
  proof (cases k)
    case 0
    then show ?thesis using l0 Suc.prems(3) by (simp add: unroll del: upt_Suc)
  next
    case (Suc k')
    have "take m (drop (k' * L + r) (concat (map (\<lambda>j. g (Suc j)) [0..<n]))) = take m (drop r (g (Suc k')))"
      using Suc.prems Suc by (intro Suc.IH) simp_all
    then show ?thesis using l0 Suc by (simp add: unroll add.assoc del: upt_Suc)
  qed
qed

lemma scanline_slice:
  assumes "length data = w * h * 32" and "y < h * 8" and "tc < w"
  shows "take 8 (drop (y * (w * 8) + tc * 8) (spec_indices data (w, h))) =
     spec_subrow (spec_tile data w (y div 8) tc) (y mod 8)"
proof -
  define sub where "sub tr sr c = spec_subrow (spec_tile data w tr c) sr" for tr sr c
  define line where "line tr sr = concat (map (sub tr sr) [0..<w])" for tr sr
  define band where "band tr = concat (map (line tr) [0..<8])" for tr
  have tr: "y div 8 < h" using assms(2) by (simp add: less_mult_imp_div_less)
  have sr: "y mod 8 < 8" by simp
  have lsub: "length (sub t s c) = 8" if "t < h" and "s < 8" and "c < w" for t s c
  proof -
    have "length (spec_tile data w t c) = 32"
      using tile_index_bound [OF that(1,3)] assms(1) by (intro length_spec_tile) simp
    then show ?thesis using that(2) unfolding sub_def by (intro length_spec_subrow) simp
  qed
  have lline: "length (line t s) = w * 8" if "t < h" and "s < 8" for t s
    unfolding line_def using lsub [OF that] by (subst length_concat_uniform [where n = 8]) simp_all
  have lband: "length (band t) = 8 * (w * 8)" if "t < h" for t
    unfolding band_def using lline [OF that] by (subst length_concat_uniform [where n = "w * 8"]) simp_all
  have all: "spec_indices data (w, h) = concat (map band [0..<h])"
    by (simp add: spec_indices_def band_def [abs_def] line_def [abs_def] sub_def [abs_def])
  have pos: "y * (w * 8) + tc * 8 = (y div 8) * (8 * (w * 8)) + ((y mod 8) * (w * 8) + tc * 8)"
  proof -
    have "(q * 8 + r) * (w * 8) + tc * 8 = q * (8 * (w * 8)) + (r * (w * 8) + tc * 8)"
      for q r :: nat by (simp add: algebra_simps)
    from this [of "y div 8" "y mod 8"] show ?thesis by simp
  qed
  have fit2: "tc * 8 + 8 \<le> w * 8" using assms(3) by simp
  have fit1: "(y mod 8) * (w * 8) + tc * 8 + 8 \<le> 8 * (w * 8)"
  proof -
    have "(y mod 8) * (w * 8) \<le> 7 * (w * 8)" using sr by (intro mult_le_mono1) simp
    then show ?thesis using fit2 by linarith
  qed
  have "take 8 (drop (y * (w * 8) + tc * 8) (spec_indices data (w, h))) =
      take 8 (drop ((y mod 8) * (w * 8) + tc * 8) (band (y div 8)))"
    unfolding all pos using lband tr fit1 by (intro slice_concat_uniform) simp_all
  also have "\<dots> = take 8 (drop (tc * 8 + 0) (line (y div 8) (y mod 8)))"
    unfolding band_def using lline [OF tr] sr fit2
    by (subst slice_concat_uniform [where L = "w * 8"]) simp_all
  also have "\<dots> = take 8 (drop 0 (sub (y div 8) (y mod 8) tc))"
    unfolding line_def using lsub [OF tr sr] assms(3)
    by (intro slice_concat_uniform) simp_all
  also have "\<dots> = sub (y div 8) (y mod 8) tc"
    using lsub [OF tr sr assms(3)] by simp
  finally show ?thesis by (simp add: sub_def)
qed

lemma length_spec_indices:
  assumes "length data = w * h * 32"
  shows "length (spec_indices data (w, h)) = w * 8 * (h * 8)"
proof -
  have lsub: "length (spec_subrow (spec_tile data w t c) s) = 8" if "t < h" and "s < 8" and "c < w" for t s c
  proof -
    have "length (spec_tile data w t c) = 32"
      using tile_index_bound [OF that(1,3)] assms(1) by (intro length_spec_tile) simp
    then show ?thesis using that(2) by (intro length_spec_subrow) simp
  qed
  have lline: "length (concat (map (\<lambda>c. spec_subrow (spec_tile data w t c) s) [0..<w])) = w * 8"
    if "t < h" and "s < 8" for t s
    using lsub [OF that] by (subst length_concat_uniform [where n = 8]) simp_all
  have lband: "length (concat (map (\<lambda>s. concat (map (\<lambda>c. spec_subrow (spec_tile data w t c) s) [0..<w])) [0..<8])) = 8 * (w * 8)"
    if "t < h" for t
    using lline [OF that] by (subst length_concat_uniform [where n = "w * 8"]) simp_all
  show ?thesis
    unfolding spec_indices_def using lband
    by (subst length_concat_uniform [where n = "8 * (w * 8)"]) simp_all
qed

subsection \<open>Applying the palette and making the pixbuf\<close>

lemma apply_palette_Inr:
  assumes "\<And>i. i \<in> set bs \<Longrightarrow> i < length (colors pal)"
  shows "apply_palette bs pal = Inr (concat (map (\<lambda>i. colors pal ! i) bs))"
proof -
  have "apply_palette bs pal = Inr ([] @ concat (map (\<lambda>i. colors pal ! i) bs))"
    unfolding apply_palette_def by (rule for_loop_appends) (use assms in simp)
  then show ?thesis by simp
qed

lemma grid_flatten:
  "concat (map (\<lambda>y. map (\<lambda>x. F (y * W + x)) [0..<W]) [0..<H]) = map F [0..<H * W]"
proof (induction H)
  case 0
  then show ?case by simp
next
  case (Suc H)
  have "map (\<lambda>x. F (H * W + x)) [0..<W] = map F (map (\<lambda>x. x + H * W) [0..<W])"
    by (simp add: comp_def add.commute)
  also have "\<dots> = map F [H * W..<H * W + W]"
    by (simp only: map_add_upt add.commute)
  finally have "map (\<lambda>x. F (H * W + x)) [0..<W] = map F [H * W..<H * W + W]" .
  moreover have "[0..<H * W + W] = [0..<H * W] @ [H * W..<H * W + W]"
    by (rule upt_add_eq_append) simp
  ultimately show ?case using Suc.IH by (simp add: add.commute)
qed

lemma map_of_nth: "map (\<lambda>p. f (xs ! p)) [0..<length xs] = map f xs"
  by (rule nth_equalityI) simp_all

lemma pixel_slice:
  assumes "\<And>i. i \<in> set idxs \<Longrightarrow> length (f i) = 3" and "p < length idxs"
  shows "take 3 (drop (p * 3) (concat (map f idxs))) = f (idxs ! p)"
proof -
  have "concat (map f idxs) = concat (map (\<lambda>q. f (idxs ! q)) [0..<length idxs])"
    by (simp add: map_nth flip: map_map [unfolded comp_def])
  moreover have "take 3 (drop (p * 3 + 0) (concat (map (\<lambda>q. f (idxs ! q)) [0..<length idxs]))) =
      take 3 (drop 0 (f (idxs ! p)))"
    using assms by (intro slice_concat_uniform) simp_all
  ultimately show ?thesis using assms by simp
qed

lemma new_from_data_pixels:
  assumes "\<And>i. i \<in> set idxs \<Longrightarrow> length (f i) = 3" and "length idxs = H * W"
    and "0 < W" and "0 < H"
  shows "Pixbuf_new_from_data (concat (map f idxs)) W H (W * 3) =
     Inr \<lparr>width = W, height = H, pixels = map f idxs\<rparr>"
proof -
  have "map (\<lambda>x. take 3 (drop (y * (W * 3) + 3 * x) (concat (map f idxs)))) [0..<W] =
      map (\<lambda>x. f (idxs ! (y * W + x))) [0..<W]" if "y < H" for y
  proof (rule map_cong [OF refl])
    fix x assume "x \<in> set [0..<W]"
    then have "x < W" by simp
    have "y * W + x < y * W + W" using \<open>x < W\<close> by simp
    also have "\<dots> = Suc y * W" by simp
    also have "\<dots> \<le> H * W" using that by (intro mult_le_mono1) simp
    finally have "y * W + x < length idxs" using assms(2) by simp
    then have "take 3 (drop ((y * W + x) * 3) (concat (map f idxs))) = f (idxs ! (y * W + x))"
      using assms(1) by (intro pixel_slice) simp_all
    moreover have "(y * W + x) * 3 = y * (W * 3) + 3 * x" by (simp add: algebra_simps)
    ultimately show "take 3 (drop (y * (W * 3) + 3 * x) (concat (map f idxs))) = f (idxs ! (y * W + x))"
      by (simp only:)
  qed
  then have "concat (map (\<lambda>y. map (\<lambda>x. take 3 (drop (y * (W * 3) + 3 * x) (concat (map f idxs)))) [0..<W]) [0..<H]) =
      concat (map (\<lambda>y. map (\<lambda>x. f (idxs ! (y * W + x))) [0..<W]) [0..<H])"
    by (intro arg_cong [where f = concat] map_cong [OF refl]) simp
  also have "\<dots> = map (\<lambda>p. f (idxs ! p)) [0..<H * W]"
    by (rule grid_flatten)
  also have "\<dots> = map f idxs"
    by (simp only: assms(2) [symmetric] map_of_nth)
  finally show ?thesis
    using assms(3,4) by (simp add: Pixbuf_new_from_data_def)
qed

text \<open>A palette the decoder accepts: 16 colours of three channel values below 256.\<close>

lemma Image_unscaled_exact:
  assumes "0 < w" and "0 < h" and "length data = w * h * 32"
    and "length (colors pal) = 16"
    and "list_all (\<lambda>c. length c = 3 \<and> list_all (\<lambda>v. v < 256) c) (colors pal)"
  shows "Image_unscaled data (w, h) pal =
     Inr \<lparr>width = 8 * w, height = 8 * h,
          pixels = map (\<lambda>i. colors pal ! i) (spec_indices data (w, h))\<rparr>"
proof -
  let ?idxs = "spec_indices data (w, h)"
  let ?f = "\<lambda>i. colors pal ! i"
  have col: "length (?f i) = 3 \<and> list_all (\<lambda>v. v < 256) (?f i)" if "i \<in> set ?idxs" for i
  proof -
    have "i < length (colors pal)" using spec_indices_bound [OF that] assms(4) by simp
    then have "?f i \<in> set (colors pal)" by simp
    then show ?thesis using assms(5) by (auto simp: list_all_iff)
  qed
  have bs: "Image_bytestring data (w, h) = Inr ?idxs"
    using assms(1,3) by (rule Image_bytestring_exact)
  have ap: "apply_palette ?idxs pal = Inr (concat (map ?f ?idxs))"
    using spec_indices_bound assms(4) by (intro apply_palette_Inr) auto
  have ba: "bytearray (concat (map ?f ?idxs)) = Inr (concat (map ?f ?idxs))"
    using col by (auto simp: bytearray_def list_all_iff)
  have "length ?idxs = 8 * h * (8 * w)"
    using length_spec_indices [OF assms(3)] by (simp add: mult.commute)
  then have "Pixbuf_new_from_data (concat (map ?f ?idxs)) (8 * w) (8 * h) (8 * w * 3) =
      Inr \<lparr>width = 8 * w, height = 8 * h, pixels = map ?f ?idxs\<rparr>"
    using col assms(1,2) by (intro new_from_data_pixels) simp_all
  then show ?thesis
    by (simp add: Image_unscaled_def Image_result_def bs ap ba)
qed

subsection \<open>One tile\<close>

lemma take4_drop:
  assumes "i + 3 < length xs"
  shows "take 4 (drop i xs) = [xs ! i, xs ! (i + 1), xs ! (i + 2), xs ! (i + 3)]"
proof -
  have "drop i xs = xs ! i # drop (Suc i) xs"
    using assms by (simp add: Cons_nth_drop_Suc)
  also have "drop (Suc i) xs = xs ! Suc i # drop (Suc (Suc i)) xs"
    using assms by (simp add: Cons_nth_drop_Suc)
  also have "drop (Suc (Suc i)) xs = xs ! Suc (Suc i) # drop (Suc (Suc (Suc i))) xs"
    using assms by (simp add: Cons_nth_drop_Suc)
  also have "drop (Suc (Suc (Suc i))) xs = xs ! Suc (Suc (Suc i)) # drop (Suc (Suc (Suc (Suc i)))) xs"
    using assms by (simp add: Cons_nth_drop_Suc)
  finally show ?thesis by (simp add: numeral_eq_Suc)
qed

lemma concat_chunks: "concat (map (\<lambda>k. take n (drop (k * n) xs)) [0..<m]) = take (m * n) xs"
proof (induction m)
  case 0
  then show ?case by simp
next
  case (Suc m)
  have "take (Suc m * n) xs = take (m * n + n) xs" by (simp add: add.commute)
  also have "\<dots> = take (m * n) xs @ take n (drop (m * n) xs)" by (rule take_add)
  finally show ?case using Suc.IH by simp
qed

lemma concat_map_concat:
  "concat (map (\<lambda>k. concat (map g (c k))) ks) = concat (map g (concat (map c ks)))"
  by (induction ks) simp_all

lemma spec_indices_tile:
  assumes "length tile = 32"
  shows "spec_indices tile (1, 1) = concat (map nibbles tile)"
proof -
  have "spec_indices tile (1, 1) =
      concat (map (\<lambda>k. concat (map nibbles (take 4 (drop (k * 4) tile)))) [0..<8])"
    using assms by (simp add: spec_indices_def spec_tile_def spec_subrow_def mult.commute)
  also have "\<dots> = concat (map nibbles (concat (map (\<lambda>k. take 4 (drop (k * 4) tile)) [0..<8])))"
    by (rule concat_map_concat)
  also have "concat (map (\<lambda>k. take 4 (drop (k * 4) tile)) [0..<8]) = take (8 * 4) tile"
    by (rule concat_chunks)
  finally show ?thesis using assms by simp
qed

text \<open>
  C3. For every 32-byte tile, the index stream the code builds for a single tile is the
  tile's bytes in order, each byte \<open>v\<close> giving \<open>v & 0x0F\<close> followed by \<open>v >> 4\<close>; row
  \<open>row\<close> of the 8 by 8 grid is the eight indices of bytes \<open>4 * row, \<dots>, 4 * row + 3\<close>, in
  the order low, high of each byte. A row of the bytes \<open>0x21, 0, 0, 0\<close> is
  \<open>[1, 2, 0, 0, 0, 0, 0, 0]\<close>.
\<close>

theorem tile_unpack:
  assumes "length tile = 32"
  shows "Image_bytestring tile (1, 1) = Inr (concat (map nibbles tile)) \<and>
    (\<forall>row<8. take 8 (drop (row * 8) (concat (map nibbles tile))) =
       [unat (tile ! (4 * row) AND 0x0F), unat (drop_bit 4 (tile ! (4 * row))),
        unat (tile ! (4 * row + 1) AND 0x0F), unat (drop_bit 4 (tile ! (4 * row + 1))),
        unat (tile ! (4 * row + 2) AND 0x0F), unat (drop_bit 4 (tile ! (4 * row + 2))),
        unat (tile ! (4 * row + 3) AND 0x0F), unat (drop_bit 4 (tile ! (4 * row + 3)))]) \<and>
    (\<forall>row<8. take 4 (drop (4 * row) tile) = [0x21, 0, 0, 0] \<longrightarrow>
       take 8 (drop (row * 8) (concat (map nibbles tile))) = [1, 2, 0, 0, 0, 0, 0, 0])"
proof -
  have a: "length tile = 1 * 1 * 32" using assms by simp
  have s: "spec_indices tile (1, 1) = concat (map nibbles tile)"
    using assms by (rule spec_indices_tile)
  have b: "Image_bytestring tile (1, 1) = Inr (concat (map nibbles tile))"
    using Image_bytestring_exact [OF _ a] s by simp
  have r: "take 8 (drop (row * 8) (concat (map nibbles tile))) =
      concat (map nibbles (take 4 (drop (4 * row) tile)))" if "row < 8" for row
  proof -
    have "take 8 (drop (row * (1 * 8) + 0 * 8) (spec_indices tile (1, 1))) =
        spec_subrow (spec_tile tile 1 (row div 8) 0) (row mod 8)"
      using a that by (intro scanline_slice) simp_all
    from this [unfolded s] show ?thesis
      using that assms by (simp add: spec_subrow_def spec_tile_def)
  qed
  have c: "take 8 (drop (row * 8) (concat (map nibbles tile))) =
       [unat (tile ! (4 * row) AND 0x0F), unat (drop_bit 4 (tile ! (4 * row))),
        unat (tile ! (4 * row + 1) AND 0x0F), unat (drop_bit 4 (tile ! (4 * row + 1))),
        unat (tile ! (4 * row + 2) AND 0x0F), unat (drop_bit 4 (tile ! (4 * row + 2))),
        unat (tile ! (4 * row + 3) AND 0x0F), unat (drop_bit 4 (tile ! (4 * row + 3)))]"
    if "row < 8" for row
  proof -
    have "4 * row + 3 < length tile" using that assms by simp
    then show ?thesis
      by (simp only: r [OF that] take4_drop) (simp add: nibbles_def)
  qed
  have d: "take 8 (drop (row * 8) (concat (map nibbles tile))) = [1, 2, 0, 0, 0, 0, 0, 0]"
    if "row < 8" and "take 4 (drop (4 * row) tile) = [0x21, 0, 0, 0]" for row
    by (simp add: r [OF that(1)] that(2) nibbles_def)
  show ?thesis using b c d by blast
qed

theorem tile_unpack_witness:
  "length ([0x21, 0, 0, 0] @ replicate 28 (0::byte)) = 32 \<and>
   Image_bytestring ([0x21, 0, 0, 0] @ replicate 28 0) (1, 1) =
     Inr (concat (map nibbles ([0x21, 0, 0, 0] @ replicate 28 0))) \<and>
   take 8 (drop (0 * 8) (concat (map nibbles ([0x21, 0, 0, 0] @ replicate 28 0)))) =
     [1, 2, 0, 0, 0, 0, 0, 0]"
proof -
  have h: "length ([0x21, 0, 0, 0] @ replicate 28 (0::byte)) = 32" by simp
  have t: "take 4 (drop (4 * 0) ([0x21, 0, 0, 0] @ replicate 28 (0::byte))) = [0x21, 0, 0, 0]"
    by simp
  from tile_unpack [OF h] have
    "Image_bytestring ([0x21, 0, 0, 0] @ replicate 28 0) (1, 1) =
       Inr (concat (map nibbles ([0x21, 0, 0, 0] @ replicate 28 0)))"
    and "\<forall>row<8. take 4 (drop (4 * row) ([0x21, 0, 0, 0] @ replicate 28 (0::byte))) = [0x21, 0, 0, 0] \<longrightarrow>
       take 8 (drop (row * 8) (concat (map nibbles ([0x21, 0, 0, 0] @ replicate 28 0)))) =
         [1, 2, 0, 0, 0, 0, 0, 0]"
    by blast+
  then show ?thesis using h t by (metis zero_less_numeral)
qed

subsection \<open>The assembled image\<close>

lemma nth_grid:
  assumes "Y < H" and "X < W"
  shows "concat (map (\<lambda>y. map (\<lambda>x. F y x) [0..<W]) [0..<H]) ! (Y * W + X) = F Y X"
proof -
  define G where "G p = F (p div W) (p mod W)" for p
  have W: "0 < W" using assms(2) by simp
  have r: "map (\<lambda>x. F y x) [0..<W] = map (\<lambda>x. G (y * W + x)) [0..<W]" for y
    using W by (intro map_cong [OF refl]) (simp add: G_def)
  have "concat (map (\<lambda>y. map (\<lambda>x. F y x) [0..<W]) [0..<H]) =
      concat (map (\<lambda>y. map (\<lambda>x. G (y * W + x)) [0..<W]) [0..<H])"
    by (simp only: r)
  also have "\<dots> = map G [0..<H * W]" by (rule grid_flatten)
  finally have eq: "concat (map (\<lambda>y. map (\<lambda>x. F y x) [0..<W]) [0..<H]) = map G [0..<H * W]" .
  have "Y * W + X < Y * W + W" using assms(2) by simp
  also have "\<dots> = Suc Y * W" by simp
  also have "\<dots> \<le> H * W" using assms(1) by (intro mult_le_mono1) simp
  finally have "Y * W + X < H * W" .
  then have "map G [0..<H * W] ! (Y * W + X) = G (Y * W + X)" by simp
  also have "\<dots> = F Y X" using assms(2) by (simp add: G_def)
  finally show ?thesis by (simp only: eq)
qed

lemma length_grid:
  "length (concat (map (\<lambda>y. map (\<lambda>x. F y x) [0..<W]) [0..<H])) = H * W"
  by (subst length_concat_uniform [where n = W]) simp_all

lemma spec_indices_nth:
  assumes "length data = w * h * 32" and "y < h * 8" and "x < w * 8"
  shows "spec_indices data (w, h) ! (y * (w * 8) + x) =
     spec_subrow (spec_tile data w (y div 8) (x div 8)) (y mod 8) ! (x mod 8)"
proof -
  let ?idxs = "spec_indices data (w, h)"
  let ?a = "y * (w * 8) + (x div 8) * 8"
  have tc: "x div 8 < w" using assms(3) by (simp add: less_mult_imp_div_less)
  have sl: "take 8 (drop ?a ?idxs) = spec_subrow (spec_tile data w (y div 8) (x div 8)) (y mod 8)"
    using assms(1,2) tc by (rule scanline_slice)
  have "(x div 8) * 8 + 8 \<le> w * 8" using tc by simp
  then have "?a + 8 \<le> Suc y * (w * 8)" by simp
  also have "\<dots> \<le> h * 8 * (w * 8)" using assms(2) by (intro mult_le_mono1) simp
  finally have fit: "?a + 8 \<le> length ?idxs"
    using length_spec_indices [OF assms(1)] by (simp add: mult.commute)
  have "take 8 (drop ?a ?idxs) ! (x mod 8) = drop ?a ?idxs ! (x mod 8)" by simp
  also have "\<dots> = ?idxs ! (?a + x mod 8)"
    using fit by (intro nth_drop) simp
  also have "?a + x mod 8 = y * (w * 8) + x" by (simp add: add.assoc)
  finally show ?thesis by (simp only: sl)
qed

lemma halve_scaled: "0 < n \<Longrightarrow> Y * n div (n * 2) = Y div (2::nat)"
  by (simp add: div_mult2_eq)

text \<open>The image that \<open>Image\<close> leaves for a buffer of the required length.\<close>

lemma Image_scaled_exact:
  assumes "0 < w" and "0 < h" and "length data = w * h * 32"
    and "length (colors pal) = 16"
    and "list_all (\<lambda>c. length c = 3 \<and> list_all (\<lambda>v. v < 256) c) (colors pal)"
  shows "\<exists>img. Image data (w, h) pal = Inr img \<and>
     width img = w * 16 \<and> height img = h * 16 \<and> length (pixels img) = w * 16 * (h * 16) \<and>
     (\<forall>Y<h * 16. \<forall>X<w * 16.
        pixels img ! (Y * (w * 16) + X) =
        colors pal ! (spec_indices data (w, h) ! (Y div 2 * (w * 8) + X div 2)))"
proof -
  let ?idxs = "spec_indices data (w, h)"
  let ?pb = "\<lparr>width = 8 * w, height = 8 * h, pixels = map (\<lambda>i. colors pal ! i) ?idxs\<rparr>"
  let ?F = "\<lambda>y x. pixels ?pb ! ((y * height ?pb div (8 * h * 2)) * width ?pb
                                  + x * width ?pb div (8 * w * 2))"
  let ?img = "\<lparr>width = 8 * w * 2, height = 8 * h * 2,
    pixels = concat (map (\<lambda>y. map (\<lambda>x. ?F y x) [0..<8 * w * 2]) [0..<8 * h * 2])\<rparr>"
  have ne: "data \<noteq> []" using assms(1,2,3) by auto
  have un: "Image_unscaled data (w, h) pal = Inr ?pb"
    using assms by (rule Image_unscaled_exact)
  have im: "Image data (w, h) pal = Inr ?img"
    using ne assms(1,2) by (simp add: Image_def un scale_simple_def)
  have len: "length (pixels ?img) = w * 16 * (h * 16)"
    by (simp add: length_grid)
  have px: "pixels ?img ! (Y * (w * 16) + X) = colors pal ! (?idxs ! (Y div 2 * (w * 8) + X div 2))"
    if "Y < h * 16" and "X < w * 16" for Y X
  proof -
    have Y: "Y < 8 * h * 2" and X: "X < 8 * w * 2" using that by simp_all
    have "pixels ?img ! (Y * (8 * w * 2) + X) = ?F Y X"
      unfolding pixbuf.simps using Y X by (rule nth_grid)
    moreover have "Y * (8 * h) div (8 * h * 2) = Y div 2"
      using assms(2) by (intro halve_scaled) simp
    moreover have "X * (8 * w) div (8 * w * 2) = X div 2"
      using assms(1) by (intro halve_scaled) simp
    moreover have "Y div 2 * (8 * w) + X div 2 < length ?idxs"
    proof -
      have "X div 2 < 8 * w" using X by simp
      then have "Y div 2 * (8 * w) + X div 2 < Suc (Y div 2) * (8 * w)" by simp
      also have "\<dots> \<le> 8 * h * (8 * w)" using Y by (intro mult_le_mono1) simp
      finally show ?thesis
        using length_spec_indices [OF assms(3)] by (simp add: mult.commute)
    qed
    ultimately show ?thesis by (simp add: mult.commute)
  qed
  show ?thesis
    using im len px by (intro exI [of _ ?img]) (simp add: mult.commute)
qed


lemma Image_scaled_tiles:
  assumes "0 < w" and "0 < h" and "length data = w * h * 32"
    and "length (colors pal) = 16"
    and "list_all (\<lambda>c. length c = 3 \<and> list_all (\<lambda>v. v < 256) c) (colors pal)"
  shows "\<exists>img. Image data (w, h) pal = Inr img \<and>
     width img = w * 16 \<and> height img = h * 16 \<and> length (pixels img) = w * 16 * (h * 16) \<and>
     (\<forall>Y<h * 16. \<forall>X<w * 16.
        pixels img ! (Y * (w * 16) + X) =
        colors pal ! (spec_subrow (spec_tile data w (Y div 16) (X div 16)) (Y div 2 mod 8)
                        ! (X div 2 mod 8)))"
proof -
  let ?idxs = "spec_indices data (w, h)"
  from Image_scaled_exact [OF assms]
  obtain img where im: "Image data (w, h) pal = Inr img"
    and wd: "width img = w * 16" and ht: "height img = h * 16"
    and ln: "length (pixels img) = w * 16 * (h * 16)"
    and px: "\<forall>Y<h * 16. \<forall>X<w * 16.
        pixels img ! (Y * (w * 16) + X) = colors pal ! (?idxs ! (Y div 2 * (w * 8) + X div 2))"
    by blast
  have "pixels img ! (Y * (w * 16) + X) =
      colors pal ! (spec_subrow (spec_tile data w (Y div 16) (X div 16)) (Y div 2 mod 8)
                      ! (X div 2 mod 8))"
    if "Y < h * 16" and "X < w * 16" for Y X
  proof -
    have "Y div 2 < h * 8" and "X div 2 < w * 8" using that by simp_all
    from spec_indices_nth [OF assms(3) this]
    have "?idxs ! (Y div 2 * (w * 8) + X div 2) =
        spec_subrow (spec_tile data w (Y div 2 div 8) (X div 2 div 8)) (Y div 2 mod 8) ! (X div 2 mod 8)" .
    moreover have "Y div 2 div 8 = Y div 16" and "X div 2 div 8 = X div 16"
      by (simp_all add: div_mult2_eq [symmetric])
    ultimately show ?thesis using px that by simp
  qed
  then show ?thesis using im wd ht ln by blast
qed

text \<open>
  C1, as the code has it. For a tile grid \<open>(w, h)\<close> with both components at least 1, a
  buffer of exactly \<open>w * h * 32\<close> bytes and a palette of 16 colours, the code's index
  stream is the specification's nested loop over \<open>tileRow\<close>, \<open>subRow\<close> and \<open>tileCol\<close>,
  and the pixbuf \<^verbatim>\<open>new_from_data\<close> makes of it is \<open>w * 8\<close> by \<open>h * 8\<close> pixels in raster
  order: on its scanline \<open>y\<close>, the columns \<open>8 * tileCol, \<dots>, 8 * tileCol + 7\<close> are the
  colours of sub-row \<open>y mod 8\<close> of tile \<open>(y div 8, tileCol)\<close>. The image that
  \<^verbatim>\<open>Image.__init__\<close> leaves is this raster doubled: \<open>w * 16\<close> by \<open>h * 16\<close> pixels in
  raster order, its pixel \<open>(X, Y)\<close> being pixel \<open>(X div 2, Y div 2)\<close> of the raster, so
  that on every scanline the columns \<open>16 * tileCol, \<dots>, 16 * tileCol + 15\<close> come from
  tile column \<open>tileCol\<close>. For \<open>(2, 1)\<close> the columns 16 to 31 of every scanline come from
  the second tile, and the columns 0 to 15 from the first.
\<close>

theorem assemble_raster:
  assumes "1 \<le> w" and "1 \<le> h" and "length data = w * h * 32"
    and "length (colors pal) = 16"
    and "list_all (\<lambda>c. length c = 3 \<and> list_all (\<lambda>v. v < 256) c) (colors pal)"
  shows "\<exists>pb img. Image_bytestring data (w, h) = Inr (spec_indices data (w, h)) \<and>
      Image_unscaled data (w, h) pal = Inr pb \<and>
      width pb = w * 8 \<and> height pb = h * 8 \<and> length (pixels pb) = w * 8 * (h * 8) \<and>
      pixels pb = map (\<lambda>i. colors pal ! i) (spec_indices data (w, h)) \<and>
      (\<forall>y<h * 8. \<forall>tileCol<w.
         take 8 (drop (y * (w * 8) + tileCol * 8) (pixels pb)) =
         map (\<lambda>i. colors pal ! i) (spec_subrow (spec_tile data w (y div 8) tileCol) (y mod 8))) \<and>
      Image data (w, h) pal = Inr img \<and>
      width img = w * 16 \<and> height img = h * 16 \<and> length (pixels img) = w * 16 * (h * 16) \<and>
      (\<forall>Y<h * 16. \<forall>X<w * 16.
         pixels img ! (Y * (w * 16) + X) = pixels pb ! (Y div 2 * (w * 8) + X div 2)) \<and>
      (\<forall>Y<h * 16. \<forall>X<w * 16.
         pixels img ! (Y * (w * 16) + X) =
         colors pal ! (spec_subrow (spec_tile data w (Y div 16) (X div 16)) (Y div 2 mod 8)
                         ! (X div 2 mod 8)))"
proof -
  let ?idxs = "spec_indices data (w, h)"
  let ?pb = "\<lparr>width = 8 * w, height = 8 * h, pixels = map (\<lambda>i. colors pal ! i) ?idxs\<rparr>"
  have w: "0 < w" and h: "0 < h" using assms(1,2) by simp_all
  have bs: "Image_bytestring data (w, h) = Inr ?idxs"
    using w assms(3) by (rule Image_bytestring_exact)
  have un: "Image_unscaled data (w, h) pal = Inr ?pb"
    using w h assms(3,4,5) by (rule Image_unscaled_exact)
  have len: "length ?idxs = w * 8 * (h * 8)"
    using assms(3) by (rule length_spec_indices)
  have sl: "take 8 (drop (y * (w * 8) + tileCol * 8) (pixels ?pb)) =
      map (\<lambda>i. colors pal ! i) (spec_subrow (spec_tile data w (y div 8) tileCol) (y mod 8))"
    if "y < h * 8" and "tileCol < w" for y tileCol
    using scanline_slice [OF assms(3) that] by (simp add: take_map drop_map)
  from Image_scaled_exact [OF w h assms(3,4,5)]
  obtain img where im: "Image data (w, h) pal = Inr img"
    and wd: "width img = w * 16" and ht: "height img = h * 16"
    and ln: "length (pixels img) = w * 16 * (h * 16)"
    and px: "\<forall>Y<h * 16. \<forall>X<w * 16.
        pixels img ! (Y * (w * 16) + X) = colors pal ! (?idxs ! (Y div 2 * (w * 8) + X div 2))"
    by blast
  have inside: "Y div 2 * (w * 8) + X div 2 < length ?idxs"
    if "Y < h * 16" and "X < w * 16" for Y X
  proof -
    have "X div 2 < w * 8" using that(2) by simp
    then have "Y div 2 * (w * 8) + X div 2 < Suc (Y div 2) * (w * 8)" by simp
    also have "\<dots> \<le> h * 8 * (w * 8)" using that(1) by (intro mult_le_mono1) simp
    finally show ?thesis using len by (simp add: mult.commute)
  qed
  have p1: "pixels img ! (Y * (w * 16) + X) = pixels ?pb ! (Y div 2 * (w * 8) + X div 2)"
    if "Y < h * 16" and "X < w * 16" for Y X
    using px that inside [OF that] by simp
  have p2: "pixels img ! (Y * (w * 16) + X) =
      colors pal ! (spec_subrow (spec_tile data w (Y div 16) (X div 16)) (Y div 2 mod 8)
                      ! (X div 2 mod 8))"
    if "Y < h * 16" and "X < w * 16" for Y X
    using Image_scaled_tiles [OF w h assms(3,4,5)] im that by auto
  show ?thesis
    using bs un im wd ht ln len sl p1 p2
    by (intro exI [of _ ?pb] exI [of _ img]) (simp add: mult.commute)
qed

theorem assemble_raster_witness:
  "(1::nat) \<le> 2 \<and> (1::nat) \<le> 1 \<and>
   length (replicate 32 (0x00::byte) @ replicate 32 0x21) = 2 * 1 * 32 \<and>
   (\<exists>pb img.
      Image_unscaled (replicate 32 0x00 @ replicate 32 0x21) (2, 1)
        \<lparr>pal_offset = 0,
         colors = [[0, 0, 0], [8, 8, 8], [16, 16, 16]] @ replicate 13 [248, 248, 248]\<rparr> = Inr pb \<and>
      width pb = 16 \<and> height pb = 8 \<and> length (pixels pb) = 128 \<and>
      take 8 (drop (3 * (2 * 8) + 1 * 8) (pixels pb)) =
        [[8, 8, 8], [16, 16, 16], [8, 8, 8], [16, 16, 16],
         [8, 8, 8], [16, 16, 16], [8, 8, 8], [16, 16, 16]] \<and>
      Image (replicate 32 0x00 @ replicate 32 0x21) (2, 1)
        \<lparr>pal_offset = 0,
         colors = [[0, 0, 0], [8, 8, 8], [16, 16, 16]] @ replicate 13 [248, 248, 248]\<rparr> = Inr img \<and>
      width img = 32 \<and> height img = 16 \<and> length (pixels img) = 512 \<and>
      pixels img ! (7 * (2 * 16) + 15) = [0, 0, 0] \<and>
      pixels img ! (7 * (2 * 16) + 16) = [8, 8, 8] \<and>
      pixels img ! (7 * (2 * 16) + 18) = [16, 16, 16])"
proof -
  let ?data = "replicate 32 (0x00::byte) @ replicate 32 0x21"
  let ?pal = "\<lparr>pal_offset = 0,
    colors = [[0, 0, 0], [8, 8, 8], [16, 16, 16]] @ replicate 13 [248, 248, 248]\<rparr>"
  let ?row = "[[8, 8, 8], [16, 16, 16], [8, 8, 8], [16, 16, 16],
         [8, 8, 8], [16, 16, 16], [8, 8, 8], [16, 16, 16 :: nat]]"
  have a: "(1::nat) \<le> 2" and b: "(1::nat) \<le> 1" by simp_all
  have l: "length ?data = 2 * 1 * 32" by simp
  have c: "length (colors ?pal) = 16" by simp
  have d: "list_all (\<lambda>c. length c = 3 \<and> list_all (\<lambda>v. v < 256) c) (colors ?pal)"
    by (simp add: list_all_iff)
  from assemble_raster [OF a b l c d]
  obtain pb img where u: "Image_unscaled ?data (2, 1) ?pal = Inr pb"
    and wd: "width pb = 2 * 8" and ht: "height pb = 1 * 8"
    and ln: "length (pixels pb) = 2 * 8 * (1 * 8)"
    and q: "\<forall>y<1 * 8. \<forall>tileCol<2.
         take 8 (drop (y * (2 * 8) + tileCol * 8) (pixels pb)) =
         map (\<lambda>i. colors ?pal ! i) (spec_subrow (spec_tile ?data 2 (y div 8) tileCol) (y mod 8))"
    and im: "Image ?data (2, 1) ?pal = Inr img"
    and wi: "width img = 2 * 16" and hi: "height img = 1 * 16"
    and li: "length (pixels img) = 2 * 16 * (1 * 16)"
    and p: "\<forall>Y<1 * 16. \<forall>X<2 * 16.
         pixels img ! (Y * (2 * 16) + X) =
         colors ?pal ! (spec_subrow (spec_tile ?data 2 (Y div 16) (X div 16)) (Y div 2 mod 8)
                         ! (X div 2 mod 8))"
    by blast
  have "take 8 (drop (3 * (2 * 8) + 1 * 8) (pixels pb)) =
      map (\<lambda>i. colors ?pal ! i) (spec_subrow (spec_tile ?data 2 (3 div 8) 1) (3 mod 8))"
    using q [rule_format, of 3 1] by simp
  also have "\<dots> = ?row"
    by code_simp
  finally have r: "take 8 (drop (3 * (2 * 8) + 1 * 8) (pixels pb)) = ?row" .
  have "pixels img ! (7 * (2 * 16) + 15) =
      colors ?pal ! (spec_subrow (spec_tile ?data 2 (7 div 16) (15 div 16)) (7 div 2 mod 8)
                         ! (15 div 2 mod 8))"
    using p [rule_format, of 7 15] by simp
  also have "\<dots> = [0, 0, 0]" by code_simp
  finally have p15: "pixels img ! (7 * (2 * 16) + 15) = [0, 0, 0]" .
  have "pixels img ! (7 * (2 * 16) + 16) =
      colors ?pal ! (spec_subrow (spec_tile ?data 2 (7 div 16) (16 div 16)) (7 div 2 mod 8)
                         ! (16 div 2 mod 8))"
    using p [rule_format, of 7 16] by simp
  also have "\<dots> = [8, 8, 8]" by code_simp
  finally have p16: "pixels img ! (7 * (2 * 16) + 16) = [8, 8, 8]" .
  have "pixels img ! (7 * (2 * 16) + 18) =
      colors ?pal ! (spec_subrow (spec_tile ?data 2 (7 div 16) (18 div 16)) (7 div 2 mod 8)
                         ! (18 div 2 mod 8))"
    using p [rule_format, of 7 18] by simp
  also have "\<dots> = [16, 16, 16]" by code_simp
  finally have p18: "pixels img ! (7 * (2 * 16) + 18) = [16, 16, 16]" .
  show ?thesis using a b l u wd ht ln r im wi hi li p15 p16 p18
    by (intro conjI exI [of _ pb] exI [of _ img]) simp_all
qed


text \<open>
  For the grid \<open>(2, 1)\<close>, a first tile of index 0 and a second tile of indices 1 and 2,
  the image is 32 by 16 pixels, not 16 by 8, and the columns 8 to 15 of scanline 5 have
  the colour of index 0: they come from the first tile.
\<close>

theorem assemble_raster_counterexample:
  "map_sum id width
     (Image (replicate 32 0x00 @ replicate 32 0x21) (2, 1)
        \<lparr>pal_offset = 0,
         colors = [[0, 0, 0], [8, 8, 8], [16, 16, 16]] @ replicate 13 [248, 248, 248]\<rparr>) =
     Inr 32 \<and>
   map_sum id height
     (Image (replicate 32 0x00 @ replicate 32 0x21) (2, 1)
        \<lparr>pal_offset = 0,
         colors = [[0, 0, 0], [8, 8, 8], [16, 16, 16]] @ replicate 13 [248, 248, 248]\<rparr>) =
     Inr 16 \<and>
   map_sum id (take 8 \<circ> drop (5 * 32 + 8) \<circ> pixels)
     (Image (replicate 32 0x00 @ replicate 32 0x21) (2, 1)
        \<lparr>pal_offset = 0,
         colors = [[0, 0, 0], [8, 8, 8], [16, 16, 16]] @ replicate 13 [248, 248, 248]\<rparr>) =
     Inr (replicate 8 [0, 0, 0])"
proof -
  let ?data = "replicate 32 (0x00::byte) @ replicate 32 0x21"
  let ?pal = "\<lparr>pal_offset = 0,
    colors = [[0, 0, 0], [8, 8, 8], [16, 16, 16]] @ replicate 13 [248, 248, 248]\<rparr>"
  have a: "(0::nat) < 2" and b: "(0::nat) < 1" by simp_all
  have l: "length ?data = 2 * 1 * 32" by simp
  have c: "length (colors ?pal) = 16" by simp
  have d: "list_all (\<lambda>c. length c = 3 \<and> list_all (\<lambda>v. v < 256) c) (colors ?pal)"
    by (simp add: list_all_iff)
  from Image_scaled_tiles [OF a b l c d]
  obtain img where im: "Image ?data (2, 1) ?pal = Inr img"
    and wi: "width img = 2 * 16" and hi: "height img = 1 * 16"
    and li: "length (pixels img) = 2 * 16 * (1 * 16)"
    and p: "\<forall>Y<1 * 16. \<forall>X<2 * 16.
         pixels img ! (Y * (2 * 16) + X) =
         colors ?pal ! (spec_subrow (spec_tile ?data 2 (Y div 16) (X div 16)) (Y div 2 mod 8)
                         ! (X div 2 mod 8))"
    by blast
  have t: "spec_subrow (spec_tile ?data 2 0 0) 2 = replicate 8 0"
    by code_simp
  have px: "pixels img ! (5 * 32 + 8 + j) = [0, 0, 0]" if "j < 8" for j
  proof -
    have "pixels img ! (5 * (2 * 16) + (8 + j)) =
        colors ?pal ! (spec_subrow (spec_tile ?data 2 (5 div 16) ((8 + j) div 16)) (5 div 2 mod 8)
                         ! ((8 + j) div 2 mod 8))"
      using p [rule_format, of 5 "8 + j"] that by simp
    moreover have "(8 + j) div 16 = 0" and "(8 + j) div 2 mod 8 < 8" using that by simp_all
    ultimately show ?thesis by (simp add: t add.assoc)
  qed
  have "take 8 (drop (5 * 32 + 8) (pixels img)) = replicate 8 [0, 0, 0]"
  proof (rule nth_equalityI)
    show "length (take 8 (drop (5 * 32 + 8) (pixels img))) = length (replicate 8 [0, 0, 0 :: nat])"
      using li by simp
  next
    fix j assume "j < length (take 8 (drop (5 * 32 + 8) (pixels img)))"
    then have j: "j < 8" by simp
    have "take 8 (drop (5 * 32 + 8) (pixels img)) ! j = pixels img ! (5 * 32 + 8 + j)"
      using j li by (simp add: nth_drop)
    then show "take 8 (drop (5 * 32 + 8) (pixels img)) ! j = replicate 8 [0, 0, 0] ! j"
      using px [OF j] j by simp
  qed
  then show ?thesis using im wi hi by simp
qed

subsection \<open>A buffer that is too short\<close>

lemma cut_chunks: "0 < n \<Longrightarrow> cut xs n = Inr (chunks xs n)"
  by (simp add: cut_pos chunks_def)

lemma length_chunks: "length (chunks xs n) = (length xs + n - 1) div n"
  by (simp add: chunks_def)

lemma chunks_index_less:
  assumes "0 < n" and "k < length (chunks xs n)"
  shows "k * n < length xs"
proof (rule ccontr)
  assume "\<not> k * n < length xs"
  then have "length xs + n - 1 < k * n + n" using assms(1) by simp
  then have "length xs + n - 1 < Suc k * n" by simp
  then have "(length xs + n - 1) div n < Suc k"
    using assms(1) by (simp add: div_less_iff_less_mult)
  then show False using assms(2) by (simp add: length_chunks)
qed

lemma nth_chunks: "k < length (chunks xs n) \<Longrightarrow> chunks xs n ! k = take n (drop (k * n) xs)"
  by (simp add: chunks_def)

lemma Image_blocks_chunks:
  assumes "0 < w"
  shows "ebind (cut data BLOCK) (\<lambda>blocks.
         ebind (map_try (\<lambda>b. cut b ROW) blocks) (\<lambda>blocks. cut blocks w)) =
     Inr (chunks (map (\<lambda>b. chunks b 4) (chunks data 32)) w)"
proof -
  have "map_try (\<lambda>b. cut b ROW) (chunks data 32) = Inr (map (\<lambda>b. chunks b 4) (chunks data 32))"
    by (rule map_try_Inr) (simp add: ROW_def cut_chunks)
  then show ?thesis
    using assms by (simp add: BLOCK_def ROW_def cut_chunks)
qed

text \<open>A successful access \<^verbatim>\<open>blocks[y][x][i][j]\<close> reads a byte of the buffer.\<close>

lemma blocks_access:
  assumes "0 < w"
    and "y < length (chunks (map (\<lambda>b. chunks b 4) (chunks data 32)) w)"
    and "x < length (chunks (map (\<lambda>b. chunks b 4) (chunks data 32)) w ! y)"
    and "i < length (chunks (map (\<lambda>b. chunks b 4) (chunks data 32)) w ! y ! x)"
    and "j < length (chunks (map (\<lambda>b. chunks b 4) (chunks data 32)) w ! y ! x ! i)"
  shows "(y * w + x) * 32 + i * 4 + j < length data"
proof -
  let ?blocks1 = "map (\<lambda>b. chunks b 4) (chunks data 32)"
  have row: "chunks ?blocks1 w ! y = take w (drop (y * w) ?blocks1)"
    using assms(2) by (rule nth_chunks)
  have "x < length ?blocks1 - y * w"
    using assms(3) unfolding row by simp
  then have x: "y * w + x < length ?blocks1" by linarith
  then have k: "y * w + x < length (chunks data 32)" by simp
  have "chunks ?blocks1 w ! y ! x = ?blocks1 ! (y * w + x)"
    using x assms(3) unfolding row by (simp add: nth_drop)
  also have "\<dots> = chunks (chunks data 32 ! (y * w + x)) 4"
    using k by simp
  also have "chunks data 32 ! (y * w + x) = take 32 (drop ((y * w + x) * 32) data)"
    using k by (rule nth_chunks)
  finally have blk: "chunks ?blocks1 w ! y ! x =
      chunks (take 32 (drop ((y * w + x) * 32) data)) 4" .
  have i: "i < length (chunks (take 32 (drop ((y * w + x) * 32) data)) 4)"
    using assms(4) unfolding blk .
  have r: "chunks ?blocks1 w ! y ! x ! i = take 4 (drop (i * 4) (take 32 (drop ((y * w + x) * 32) data)))"
    unfolding blk using i by (rule nth_chunks)
  have "j < length (take 4 (drop (i * 4) (take 32 (drop ((y * w + x) * 32) data))))"
    using assms(5) unfolding r .
  then have "j < min (min (length data - (y * w + x) * 32) 32 - i * 4) 4"
    by (simp only: length_take length_drop)
  then show ?thesis by linarith
qed

lemma for_loop_error_kind:
  assumes "\<And>i s e. i \<in> set js \<Longrightarrow> body i s = Inl e \<Longrightarrow> e = E"
    and "for_loop js body s = Inl e"
  shows "e = E"
  using assms
proof (induction js arbitrary: s)
  case Nil
  then show ?case by simp
next
  case (Cons i js)
  show ?case
  proof (cases "body i s")
    case (Inl e')
    with Cons.prems(2) have "e' = e" by simp
    with Inl Cons.prems(1) [of i s e] show ?thesis by simp
  next
    case (Inr s')
    with Cons.prems(2) have rest: "for_loop js body s' = Inl e" by simp
    have "\<And>i s e. i \<in> set js \<Longrightarrow> body i s = Inl e \<Longrightarrow> e = E"
      using Cons.prems(1) by (meson list.set_intros(2))
    then show ?thesis using rest by (rule Cons.IH)
  qed
qed

lemma for_loop_Inr_body:
  assumes "for_loop js body s = Inr t" and "i \<in> set js"
  shows "\<exists>s' t'. body i s' = Inr t'"
  using assms
proof (induction js arbitrary: s)
  case Nil
  then show ?case by simp
next
  case (Cons j js)
  from Cons.prems(1) obtain s1 where s1: "body j s = Inr s1" and rest: "for_loop js body s1 = Inr t"
    by (cases "body j s") simp_all
  show ?case
  proof (cases "i = j")
    case True
    with s1 show ?thesis by blast
  next
    case False
    with Cons.prems(2) have "i \<in> set js" by simp
    with Cons.IH rest show ?thesis by blast
  qed
qed

lemma getitem_error: "getitem xs i = Inl e \<Longrightarrow> e = IndexError"
  by (simp add: getitem_def split: if_splits)

lemma getitem_Inr_D: "getitem xs i = Inr v \<Longrightarrow> i < length xs \<and> v = xs ! i"
  by (auto simp: getitem_def split: if_splits)

lemma ebind_Inl_D: "ebind m f = Inl e \<Longrightarrow> m = Inl e \<or> (\<exists>v. m = Inr v \<and> f v = Inl e)"
  by (cases m) simp_all

lemma ebind_Inr_D: "ebind m f = Inr t \<Longrightarrow> \<exists>v. m = Inr v \<and> f v = Inr t"
  by (cases m) simp_all

lemma extract_pixels_error: "extract_pixels r bs = Inl e \<Longrightarrow> e = IndexError"
  unfolding extract_pixels_def
  by (erule for_loop_error_kind [rotated]) (auto dest!: ebind_Inl_D dest: getitem_error)

lemma extract_pixels_Inr_D:
  assumes "extract_pixels r bs = Inr t"
  shows "3 < length r"
proof -
  have "(3::nat) \<in> set [0..<4]" by simp
  from for_loop_Inr_body [OF assms [unfolded extract_pixels_def] this]
  obtain v where "getitem r 3 = Inr v" by (auto dest!: ebind_Inr_D)
  then show ?thesis by (auto dest: getitem_Inr_D)
qed

lemma build_bytestring_error:
  assumes "build_bytestring blocks sz = Inl e"
  shows "e = IndexError"
proof -
  have body: "e' = IndexError"
    if "ebind (getitem blocks y) (\<lambda>blockrow.
         ebind (getitem blockrow x) (\<lambda>block.
         ebind (getitem block i) (\<lambda>r. extract_pixels r bs))) = Inl e'" for y x i bs e'
    using that by (auto dest!: ebind_Inl_D dest: getitem_error extract_pixels_error)
  have cols: "e' = IndexError"
    if "for_loop [0..<fst sz] (\<lambda>x bs.
         ebind (getitem blocks y) (\<lambda>blockrow.
         ebind (getitem blockrow x) (\<lambda>block.
         ebind (getitem block i) (\<lambda>r. extract_pixels r bs)))) bs = Inl e'" for y i bs e'
    using that by (rule for_loop_error_kind [rotated]) (rule body)
  have rows: "e' = IndexError"
    if "for_loop [0..<BLOCK div ROW] (\<lambda>i. for_loop [0..<fst sz] (\<lambda>x bs.
         ebind (getitem blocks y) (\<lambda>blockrow.
         ebind (getitem blockrow x) (\<lambda>block.
         ebind (getitem block i) (\<lambda>r. extract_pixels r bs))))) bs = Inl e'" for y bs e'
    using that by (rule for_loop_error_kind [rotated]) (rule cols)
  show ?thesis
    using assms unfolding build_bytestring_def
    by (rule for_loop_error_kind [rotated]) (rule rows)
qed

lemma build_bytestring_Inr_D:
  assumes "build_bytestring blocks (w, h) = Inr t" and "y < h" and "x < w" and "i < 8"
  shows "\<exists>j. 3 < j \<and> y < length blocks \<and> x < length (blocks ! y) \<and> i < length (blocks ! y ! x) \<and>
     j = length (blocks ! y ! x ! i)"
proof -
  have "y \<in> set [0..<snd (w, h)]" using assms(2) by simp
  from for_loop_Inr_body [OF assms(1) [unfolded build_bytestring_def] this]
  obtain s1 t1 where "for_loop [0..<BLOCK div ROW] (\<lambda>i. for_loop [0..<fst (w, h)] (\<lambda>x bs.
         ebind (getitem blocks y) (\<lambda>blockrow.
         ebind (getitem blockrow x) (\<lambda>block.
         ebind (getitem block i) (\<lambda>r. extract_pixels r bs))))) s1 = Inr t1"
    by blast
  moreover have "i \<in> set [0..<BLOCK div ROW]" using assms(4) by (simp add: BLOCK_def ROW_def)
  ultimately obtain s2 t2 where "for_loop [0..<fst (w, h)] (\<lambda>x bs.
         ebind (getitem blocks y) (\<lambda>blockrow.
         ebind (getitem blockrow x) (\<lambda>block.
         ebind (getitem block i) (\<lambda>r. extract_pixels r bs)))) s2 = Inr t2"
    by (blast dest: for_loop_Inr_body)
  moreover have "x \<in> set [0..<fst (w, h)]" using assms(3) by simp
  ultimately obtain s3 t3 where "ebind (getitem blocks y) (\<lambda>blockrow.
         ebind (getitem blockrow x) (\<lambda>block.
         ebind (getitem block i) (\<lambda>r. extract_pixels r s3))) = Inr t3"
    by (blast dest: for_loop_Inr_body)
  then show ?thesis
    by (auto dest!: ebind_Inr_D getitem_Inr_D extract_pixels_Inr_D)
qed

lemma Image_bytestring_short:
  assumes "length data < w * h * 32"
  shows "Image_bytestring data (w, h) = Inl IndexError"
proof -
  let ?blocks = "chunks (map (\<lambda>b. chunks b 4) (chunks data 32)) w"
  from assms have w: "0 < w" and h: "0 < h" by (auto intro: Nat.gr0I)
  have eq: "Image_bytestring data (w, h) = build_bytestring ?blocks (w, h)"
  proof -
    from Image_blocks_chunks [OF w, of data]
    obtain b0 where b0: "cut data BLOCK = Inr b0"
      and "ebind (map_try (\<lambda>b. cut b ROW) b0) (\<lambda>blocks. cut blocks w) = Inr ?blocks"
      by (blast dest: ebind_Inr_D)
    then obtain b1 where b1: "map_try (\<lambda>b. cut b ROW) b0 = Inr b1" and b2: "cut b1 w = Inr ?blocks"
      by (blast dest: ebind_Inr_D)
    show ?thesis by (simp add: Image_bytestring_def b0 b1 b2)
  qed
  show ?thesis
  proof (cases "build_bytestring ?blocks (w, h)")
    case (Inl e)
    then have "e = IndexError" by (rule build_bytestring_error)
    with Inl eq show ?thesis by simp
  next
    case (Inr t)
    from build_bytestring_Inr_D [OF Inr, of "h - 1" "w - 1" 7] w h
    have a: "h - 1 < length ?blocks" and b: "w - 1 < length (?blocks ! (h - 1))"
      and c: "7 < length (?blocks ! (h - 1) ! (w - 1))"
      and d: "3 < length (?blocks ! (h - 1) ! (w - 1) ! 7)"
      by auto
    from blocks_access [OF w a b c d]
    have "((h - 1) * w + (w - 1)) * 32 + 7 * 4 + 3 < length data" .
    moreover have "(h - 1) * w + (w - 1) + 1 = w * h"
    proof -
      obtain h' where "h = Suc h'" using h by (cases h) auto
      moreover obtain w' where "w = Suc w'" using w by (cases w) auto
      ultimately show ?thesis by (simp add: algebra_simps)
    qed
    then have "((h - 1) * w + (w - 1)) * 32 + 32 = w * h * 32" by (simp add: algebra_simps)
    ultimately show ?thesis using assms by linarith
  qed
qed

lemma Image_short:
  assumes "data \<noteq> []" and "length data < w * h * 32"
  shows "Image data (w, h) pal = Inl IndexError"
  using assms(1) Image_bytestring_short [OF assms(2)]
  by (simp add: Image_def Image_unscaled_def Image_result_def)

subsection \<open>Reading sprites from the file\<close>

lemma for_loop_append:
  "for_loop (xs @ ys) body s = ebind (for_loop xs body s) (for_loop ys body)"
proof (induction xs arbitrary: s)
  case Nil
  then show ?case by simp
next
  case (Cons x xs)
  have "for_loop (xs @ ys) body = (\<lambda>s. ebind (for_loop xs body s) (for_loop ys body))"
    by (rule ext) (rule Cons.IH)
  then show ?case by (simp add: ebind_assoc)
qed

lemma py_range_count:
  assumes "0 < len"
  shows "py_range offset (offset + qty * len) len = Inr (map (\<lambda>k. offset + k * len) [0..<qty])"
proof -
  have "(qty * len + len - 1) div len = qty"
    using assms
    by (metis Suc_pred' add_Suc_right div_mult_self3 diff_Suc_1 div_less lessI
        add.right_neutral less_not_refl)
  then show ?thesis using assms by (simp add: py_range_def)
qed

lemma read_sprites_full:
  assumes "\<And>i. i < length offs \<Longrightarrow>
      Sprite (take L (drop (p + i * L) bytes)) (offs ! i) sz pal = Inr (g i)"
    and "p + length offs * L \<le> length bytes"
  shows "read_sprites offs L sz pal (\<lparr>contents = bytes, pos = p, reads = rs\<rparr>, acc) =
     Inr (\<lparr>contents = bytes, pos = p + length offs * L,
           reads = rs @ map (\<lambda>i. (p + i * L, L)) [0..<length offs]\<rparr>,
          acc @ map g [0..<length offs])"
  using assms
proof (induction offs arbitrary: p rs acc g)
  case Nil
  then show ?case by (simp add: read_sprites_def)
next
  case (Cons o1 offs)
  have full: "length (take L (drop p bytes)) = L" using Cons.prems(2) by simp
  have first: "Sprite (take L (drop p bytes)) o1 sz pal = Inr (g 0)"
    using Cons.prems(1) [of 0] by simp
  have step: "\<And>i. i < length offs \<Longrightarrow>
      Sprite (take L (drop (p + L + i * L) bytes)) (offs ! i) sz pal = Inr ((g \<circ> Suc) i)"
    using Cons.prems(1) [of "Suc _"] by (simp add: ac_simps)
  have fit: "p + L + length offs * L \<le> length bytes" using Cons.prems(2) by simp
  have ih: "read_sprites offs L sz pal
       (\<lparr>contents = bytes, pos = p + L, reads = rs @ [(p, L)]\<rparr>, acc @ [g 0]) =
     Inr (\<lparr>contents = bytes, pos = p + L + length offs * L,
           reads = (rs @ [(p, L)]) @ map (\<lambda>i. (p + L + i * L, L)) [0..<length offs]\<rparr>,
          (acc @ [g 0]) @ map (g \<circ> Suc) [0..<length offs])"
    using step fit by (rule Cons.IH)
  have m1: "map g [0..<length (o1 # offs)] = g 0 # map (g \<circ> Suc) [0..<length offs]"
    by (simp add: upt_conv_Cons map_Suc_upt [symmetric] del: upt_Suc)
  have m2: "map (\<lambda>i. (p + i * L, L)) [0..<length (o1 # offs)] =
      (p, L) # map (\<lambda>i. (p + L + i * L, L)) [0..<length offs]"
    by (simp add: upt_conv_Cons map_Suc_upt [symmetric] comp_def add.assoc del: upt_Suc)
  have "read_sprites (o1 # offs) L sz pal (\<lparr>contents = bytes, pos = p, reads = rs\<rparr>, acc) =
      read_sprites offs L sz pal
       (\<lparr>contents = bytes, pos = p + L, reads = rs @ [(p, L)]\<rparr>, acc @ [g 0])"
    using full first by (simp add: read_sprites_def read_def Let_def)
  then show ?case
    by (simp only: ih m1 m2) (simp add: add.assoc add.commute)
qed

text \<open>At the end of the file every read is empty, and every sprite has the dummy image.\<close>

lemma read_sprites_eof:
  assumes "1 \<le> w" and "1 \<le> h" and "length bytes \<le> p"
  shows "read_sprites offs L (w, h) pal (\<lparr>contents = bytes, pos = p, reads = rs\<rparr>, acc) =
     Inr (\<lparr>contents = bytes, pos = p, reads = rs @ map (\<lambda>os. (p, L)) offs\<rparr>,
          acc @ map (dummy_sprite (w, h) pal) offs)"
  using assms(3)
proof (induction offs arbitrary: rs acc)
  case Nil
  then show ?case by (simp add: read_sprites_def)
next
  case (Cons o1 offs)
  have "Sprite [] o1 (w, h) pal = Inr (dummy_sprite (w, h) pal o1)"
    using Image_dummy [OF assms(1,2), of pal] by (simp add: Sprite_def dummy_sprite_def)
  then have "read_sprites (o1 # offs) L (w, h) pal (\<lparr>contents = bytes, pos = p, reads = rs\<rparr>, acc) =
      read_sprites offs L (w, h) pal
       (\<lparr>contents = bytes, pos = p, reads = rs @ [(p, L)]\<rparr>, acc @ [dummy_sprite (w, h) pal o1])"
    using Cons.prems by (simp add: read_sprites_def read_def Let_def)
  then show ?case using Cons.IH [OF Cons.prems] by simp
qed

lemma read_sprites_short:
  assumes "p < length bytes" and "length bytes < p + w * h * 32"
  shows "read_sprites (o1 # offs) (w * h * 32) (w, h) pal
      (\<lparr>contents = bytes, pos = p, reads = rs\<rparr>, acc) = Inl IndexError"
proof -
  let ?data = "take (w * h * 32) (drop p bytes)"
  have "?data \<noteq> []" using assms by auto
  moreover have "length ?data < w * h * 32" using assms by simp
  ultimately have "Image ?data (w, h) pal = Inl IndexError" by (rule Image_short)
  then show ?thesis
    by (simp add: read_sprites_def read_def Let_def Sprite_def)
qed

text \<open>A palette read of 32 bytes gives a palette the decoder accepts.\<close>

lemma Palette_32:
  assumes "length data = 32"
  shows "\<exists>pal. Palette native data offset = Inr pal \<and> length (colors pal) = 16 \<and>
     list_all (\<lambda>c. length c = 3 \<and> list_all (\<lambda>v. v < 256) c) (colors pal)"
proof -
  from assms have "length data = 2 * 16" and "(0::nat) < 16" by simp_all
  from Palette_even [OF this, of native offset]
  obtain cs where "length cs = 16"
    and "Palette native data offset = Inr \<lparr>pal_offset = offset, colors = map spec_rgb cs\<rparr>"
    by blast
  moreover have "v < 256" if "v \<in> set (spec_rgb c)" for v c
    using spec_rgb_channel [OF that] by simp
  ultimately show ?thesis by (auto simp: list_all_iff)
qed

lemma Sprite_full:
  assumes "1 \<le> w" and "1 \<le> h" and "length data = w * h * 32"
    and "length (colors pal) = 16"
    and "list_all (\<lambda>c. length c = 3 \<and> list_all (\<lambda>v. v < 256) c) (colors pal)"
  shows "\<exists>s. Sprite data os (w, h) pal = Inr s"
proof -
  have w: "0 < w" and h: "0 < h" using assms(1,2) by simp_all
  have "data \<noteq> []" using w h assms(3) by auto
  then show ?thesis
    using w h by (simp add: Sprite_def Image_def scale_simple_def
        Image_unscaled_exact [OF w h assms(3,4,5)])
qed

subsection \<open>The search\<close>

lemma search_file_sprites:
  assumes "Palette native (take 32 (drop paloffset bytes)) paloffset = Inr pal"
    and "1 \<le> w" and "1 \<le> h"
  shows "search_file native \<lparr>contents = bytes, pos = 0, reads = []\<rparr> offset (w, h) paloffset qty =
     read_sprites (map (\<lambda>k. offset + k * (w * h * 32)) [0..<qty]) (w * h * 32) (w, h) pal
       (\<lparr>contents = bytes, pos = offset, reads = [(paloffset, 32)]\<rparr>, [])"
proof -
  have "0 < w * h * 32" using assms(2,3) by simp
  from py_range_count [OF this, of offset qty] assms(1) show ?thesis
    by (simp add: search_file_def read_def seek_def Let_def BLOCK_def ROW_def)
qed

lemma search_Found:
  "search native (Found bytes) offset sz paloffset qty =
     (case search_file native \<lparr>contents = bytes, pos = 0, reads = []\<rparr> offset sz paloffset qty of
        Inl e \<Rightarrow> Inl e | Inr (f', sprites) \<Rightarrow> Inr sprites)"
  by (simp add: search_def open_rb_def)

lemma Sprite_Inr_D:
  "Sprite data os sz pal = Inr s \<Longrightarrow>
     sp_name s = '''' \<and> sp_offset s = os \<and> sp_size s = sz \<and>
     sp_length s = fst sz * snd sz * BLOCK \<and> sp_palette s = pal \<and>
     Image data sz pal = Inr (sp_image s)"
  by (auto simp: Sprite_def dest!: ebind_Inr_D)



subsection \<open>Reads at the end of the file\<close>

lemma read_sprites_append:
  "read_sprites (xs @ ys) L sz pal st =
     ebind (read_sprites xs L sz pal st) (read_sprites ys L sz pal)"
  by (simp add: read_sprites_def [abs_def] for_loop_append)

lemma read_sprites_prefix:
  assumes "1 \<le> w" and "1 \<le> h"
    and "n = 0 \<or>
      (length (colors pal) = 16 \<and>
       list_all (\<lambda>c. length c = 3 \<and> list_all (\<lambda>v. v < 256) c) (colors pal) \<and>
       offset + n * (w * h * 32) \<le> length bytes)"
  shows "\<exists>sprites. length sprites = n \<and>
     read_sprites (map (\<lambda>k. offset + k * (w * h * 32)) [0..<n]) (w * h * 32) (w, h) pal
       (\<lparr>contents = bytes, pos = offset, reads = rs\<rparr>, []) =
     Inr (\<lparr>contents = bytes, pos = offset + n * (w * h * 32),
           reads = rs @ map (\<lambda>i. (offset + i * (w * h * 32), w * h * 32)) [0..<n]\<rparr>, sprites) \<and>
     (\<forall>i<n. sp_offset (sprites ! i) = offset + i * (w * h * 32))"
proof (cases "n = 0")
  case True
  then show ?thesis by (simp add: read_sprites_def)
next
  case False
  let ?L = "w * h * 32"
  let ?offs = "map (\<lambda>k. offset + k * ?L) [0..<n]"
  from False assms(3) have c16: "length (colors pal) = 16"
    and good: "list_all (\<lambda>c. length c = 3 \<and> list_all (\<lambda>v. v < 256) c) (colors pal)"
    and fit: "offset + n * ?L \<le> length bytes"
    by simp_all
  define g where "g i = projr (Sprite (take ?L (drop (offset + i * ?L) bytes)) (?offs ! i) (w, h) pal)" for i
  have spr: "Sprite (take ?L (drop (offset + i * ?L) bytes)) (?offs ! i) (w, h) pal = Inr (g i)"
    if "i < length ?offs" for i
  proof -
    from that have "i < n" by simp
    then have "Suc i * ?L \<le> n * ?L" by (intro mult_le_mono1) simp
    then have "offset + i * ?L + ?L \<le> length bytes" using fit by simp
    then have "length (take ?L (drop (offset + i * ?L) bytes)) = ?L" by simp
    from Sprite_full [OF assms(1,2) this c16 good, of "?offs ! i"]
    show ?thesis by (auto simp: g_def)
  qed
  have fit': "offset + length ?offs * ?L \<le> length bytes" using fit by simp
  have "read_sprites ?offs ?L (w, h) pal (\<lparr>contents = bytes, pos = offset, reads = rs\<rparr>, []) =
     Inr (\<lparr>contents = bytes, pos = offset + length ?offs * ?L,
           reads = rs @ map (\<lambda>i. (offset + i * ?L, ?L)) [0..<length ?offs]\<rparr>,
          [] @ map g [0..<length ?offs])"
    using spr fit' by (rule read_sprites_full)
  moreover have "sp_offset (map g [0..<n] ! i) = offset + i * ?L" if "i < n" for i
    using spr [of i] that by (auto dest!: Sprite_Inr_D)
  ultimately show ?thesis
    by (intro exI [of _ "map g [0..<n]"]) simp
qed

lemma upt_split: "k \<le> n \<Longrightarrow> [0..<n] = [0..<k] @ [k..<n]"
  by (metis le_add_diff_inverse upt_add_eq_append zero_le)

lemma Palette_even_Inr:
  assumes "even (length data)"
  shows "\<exists>pal. Palette native data offset = Inr pal"
proof (cases "data = []")
  case True
  then show ?thesis by (simp add: Palette_def)
next
  case False
  from assms obtain n where n: "length data = 2 * n" by (auto elim: evenE)
  with False have "0 < n" by (cases n) auto
  from Palette_even [OF n this, of native offset] show ?thesis by blast
qed

lemma search_truncated:
  assumes "paloffset + 32 \<le> length bytes" and "k < qty"
    and "offset + k * (w * h * 32) < length bytes"
    and "length bytes < offset + (k + 1) * (w * h * 32)"
  shows "search native (Found bytes) offset (w, h) paloffset qty = Inl IndexError"
proof -
  let ?L = "w * h * 32"
  let ?f = "\<lambda>k. offset + k * ?L"
  have a1: "paloffset + 32 \<le> length bytes" and a2: "k < qty"
    and a3: "offset + k * ?L < length bytes" and a4: "length bytes < offset + k * ?L + ?L"
    using assms by simp_all
  from a3 a4 have "0 < w * h" by (cases "w * h = 0") simp_all
  then have w: "1 \<le> w" and h: "1 \<le> h" by simp_all
  have "length (take 32 (drop paloffset bytes)) = 32" using a1 by simp
  from Palette_32 [OF this, of native paloffset]
  obtain pal' where pal: "Palette native (take 32 (drop paloffset bytes)) paloffset = Inr pal'"
    and c16: "length (colors pal') = 16"
    and good: "list_all (\<lambda>c. length c = 3 \<and> list_all (\<lambda>v. v < 256) c) (colors pal')"
    by blast
  have "[0..<qty] = [0..<k] @ [k..<qty]"
    using a2 by (intro upt_split) simp
  also have "[k..<qty] = k # [Suc k..<qty]"
    using a2 by (rule upt_conv_Cons)
  finally have "[0..<qty] = [0..<k] @ k # [Suc k..<qty]" .
  then have offs: "map ?f [0..<qty] = map ?f [0..<k] @ ?f k # map ?f [Suc k..<qty]"
    by simp
  from read_sprites_prefix [OF w h, of k pal' offset bytes "[(paloffset, 32)]"] c16 good a3
  obtain sprites where pre: "read_sprites (map ?f [0..<k]) ?L (w, h) pal'
       (\<lparr>contents = bytes, pos = offset, reads = [(paloffset, 32)]\<rparr>, []) =
     Inr (\<lparr>contents = bytes, pos = offset + k * ?L,
           reads = [(paloffset, 32)] @ map (\<lambda>i. (offset + i * ?L, ?L)) [0..<k]\<rparr>, sprites)"
    by auto
  have short: "read_sprites (?f k # map ?f [Suc k..<qty]) ?L (w, h) pal'
      (\<lparr>contents = bytes, pos = offset + k * ?L,
           reads = [(paloffset, 32)] @ map (\<lambda>i. (offset + i * ?L, ?L)) [0..<k]\<rparr>, sprites) =
     Inl IndexError"
    using a3 a4 by (intro read_sprites_short) simp_all
  have "search_file native \<lparr>contents = bytes, pos = 0, reads = []\<rparr> offset (w, h) paloffset qty =
      Inl IndexError"
    by (simp only: search_file_sprites [OF pal w h] offs read_sprites_append pre ebind_Inr short)
  then show ?thesis
    by (simp add: search_Found)
qed


text \<open>
  C6, as the code has it. For a non-empty buffer shorter than \<open>w * h * 32\<close> bytes,
  \<open>Image\<close> (and so \<open>Sprite\<close>) fails with IndexError and makes no partial image. Within
  a \<open>search\<close> call, when reads \<open>0, \<dots>, k - 1\<close> return all their bytes and read \<open>k\<close>
  returns some but not all, the exception leaves \<open>search\<close>: the call returns no sprite,
  the \<open>k\<close> sprites read before included.
\<close>

theorem truncated_tile_data:
  "(data \<noteq> [] \<and> length data < w * h * 32 \<longrightarrow>
      Image data (w, h) pal = Inl IndexError \<and> Sprite data os (w, h) pal = Inl IndexError) \<and>
   (paloffset + 32 \<le> length bytes \<and> k < qty \<and>
    offset + k * (w * h * 32) < length bytes \<and>
    length bytes < offset + (k + 1) * (w * h * 32) \<longrightarrow>
      search native (Found bytes) offset (w, h) paloffset qty = Inl IndexError)"
proof (intro conjI impI)
  assume a: "data \<noteq> [] \<and> length data < w * h * 32"
  then show "Image data (w, h) pal = Inl IndexError" by (simp add: Image_short)
  then show "Sprite data os (w, h) pal = Inl IndexError" by (simp add: Sprite_def)
next
  assume "paloffset + 32 \<le> length bytes \<and> k < qty \<and>
    offset + k * (w * h * 32) < length bytes \<and>
    length bytes < offset + (k + 1) * (w * h * 32)"
  then show "search native (Found bytes) offset (w, h) paloffset qty = Inl IndexError"
    by (intro search_truncated [of _ _ k]) simp_all
qed

theorem truncated_tile_data_witness:
  "(replicate 31 (0::byte) \<noteq> [] \<and> length (replicate 31 (0::byte)) < 1 * 1 * 32) \<and>
   Image (replicate 31 0) (1, 1) \<lparr>pal_offset = 0, colors = replicate 16 [0, 0, 0]\<rparr> = Inl IndexError \<and>
   (0 + 32 \<le> length (replicate 65 (0::byte)) \<and> (1::nat) < 2 \<and>
    32 + 1 * (1 * 1 * 32) < length (replicate 65 (0::byte)) \<and>
    length (replicate 65 (0::byte)) < 32 + (1 + 1) * (1 * 1 * 32)) \<and>
   search LittleEndian (Found (replicate 65 0)) 32 (1, 1) 0 2 = Inl IndexError"
  using truncated_tile_data [of "replicate 31 0" 1 1 "\<lparr>pal_offset = 0, colors = replicate 16 [0, 0, 0]\<rparr>"
      0 0 "replicate 65 0" 1 2 32 LittleEndian]
  by simp

theorem truncated_tile_data_counterexample:
  "search LittleEndian (Found (replicate 65 0)) 32 (1, 1) 0 2 = Inl IndexError"
  by (rule search_truncated [of _ _ 1]) simp_all

lemma search_all_or_nothing:
  assumes "1 \<le> w" and "1 \<le> h" and "k \<le> qty"
    and "paloffset + 32 \<le> length bytes \<or> (length bytes \<le> paloffset \<and> k = 0)"
    and "k = 0 \<or> offset + k * (w * h * 32) \<le> length bytes"
    and "k < qty \<longrightarrow> length bytes \<le> offset + k * (w * h * 32)"
  shows "\<exists>sprites. search native (Found bytes) offset (w, h) paloffset qty = Inr sprites \<and>
      length sprites = qty \<and>
      (\<forall>i<qty. sp_offset (sprites ! i) = offset + i * (w * h * 32)) \<and>
      (\<forall>i<qty. k \<le> i \<longrightarrow> sp_image (sprites ! i) = dummy_image (w, h))"
proof -
  let ?L = "w * h * 32"
  let ?f = "\<lambda>k. offset + k * ?L"
  have "\<exists>pal. Palette native (take 32 (drop paloffset bytes)) paloffset = Inr pal \<and>
      (k = 0 \<or> (length (colors pal) = 16 \<and>
         list_all (\<lambda>c. length c = 3 \<and> list_all (\<lambda>v. v < 256) c) (colors pal)))"
  proof (cases "paloffset + 32 \<le> length bytes")
    case True
    then have "length (take 32 (drop paloffset bytes)) = 32" by simp
    from Palette_32 [OF this, of native paloffset] show ?thesis by blast
  next
    case False
    with assms(4) have "take 32 (drop paloffset bytes) = []" and "k = 0" by simp_all
    then show ?thesis by (simp add: Palette_def)
  qed
  then obtain pal where pal: "Palette native (take 32 (drop paloffset bytes)) paloffset = Inr pal"
    and good: "k = 0 \<or> (length (colors pal) = 16 \<and>
         list_all (\<lambda>c. length c = 3 \<and> list_all (\<lambda>v. v < 256) c) (colors pal))"
    by blast
  have "[0..<qty] = [0..<k] @ [k..<qty]"
    using assms(3) by (rule upt_split)
  then have offs: "map ?f [0..<qty] = map ?f [0..<k] @ map ?f [k..<qty]"
    by simp
  have "k = 0 \<or> (length (colors pal) = 16 \<and>
       list_all (\<lambda>c. length c = 3 \<and> list_all (\<lambda>v. v < 256) c) (colors pal) \<and>
       offset + k * ?L \<le> length bytes)"
    using good assms(5) by blast
  from read_sprites_prefix [OF assms(1,2) this, of "[(paloffset, 32)]"]
  obtain pre where lpre: "length pre = k"
    and pre: "read_sprites (map ?f [0..<k]) ?L (w, h) pal
       (\<lparr>contents = bytes, pos = offset, reads = [(paloffset, 32)]\<rparr>, []) =
     Inr (\<lparr>contents = bytes, pos = offset + k * ?L,
           reads = [(paloffset, 32)] @ map (\<lambda>i. (offset + i * ?L, ?L)) [0..<k]\<rparr>, pre)"
    and opre: "\<forall>i<k. sp_offset (pre ! i) = offset + i * ?L"
    by blast
  let ?post = "map (dummy_sprite (w, h) pal) (map ?f [k..<qty])"
  have "\<exists>f'. read_sprites (map ?f [k..<qty]) ?L (w, h) pal
       (\<lparr>contents = bytes, pos = offset + k * ?L,
           reads = [(paloffset, 32)] @ map (\<lambda>i. (offset + i * ?L, ?L)) [0..<k]\<rparr>, pre) =
     Inr (f', pre @ ?post)"
  proof (cases "k < qty")
    case True
    with assms(6) have "length bytes \<le> offset + k * ?L" by simp
    from read_sprites_eof [OF assms(1,2) this] show ?thesis by blast
  next
    case False
    then show ?thesis by (simp add: read_sprites_def)
  qed
  then obtain f' where "read_sprites (map ?f [0..<qty]) ?L (w, h) pal
       (\<lparr>contents = bytes, pos = offset, reads = [(paloffset, 32)]\<rparr>, []) = Inr (f', pre @ ?post)"
    by (auto simp only: offs read_sprites_append pre ebind_Inr)
  then have s: "search native (Found bytes) offset (w, h) paloffset qty = Inr (pre @ ?post)"
    by (simp add: search_Found search_file_sprites [OF pal assms(1,2)])
  have l: "length (pre @ ?post) = qty" using lpre assms(3) by simp
  have o: "sp_offset ((pre @ ?post) ! i) = offset + i * ?L" if "i < qty" for i
  proof (cases "i < k")
    case True
    then show ?thesis using opre lpre by (simp add: nth_append)
  next
    case False
    then have "(pre @ ?post) ! i = dummy_sprite (w, h) pal (?f (k + (i - k)))"
      using lpre that by (simp add: nth_append)
    then show ?thesis using False by (simp add: dummy_sprite_def)
  qed
  have d: "sp_image ((pre @ ?post) ! i) = dummy_image (w, h)" if "i < qty" and "k \<le> i" for i
  proof -
    have "(pre @ ?post) ! i = dummy_sprite (w, h) pal (?f (k + (i - k)))"
      using lpre that by (simp add: nth_append)
    then show ?thesis by (simp add: dummy_sprite_def)
  qed
  show ?thesis using s l o d by blast
qed

text \<open>
  C9, as the code has it. The reads of a call are sequential, so when every sprite read
  returns all its bytes or none, there is a \<open>k \<le> qty\<close> such that reads \<open>0, \<dots>, k - 1\<close>
  are inside the file and the file ends at or before the position of read \<open>k\<close>. If
  moreover the palette read returns its 32 bytes (or returns nothing while no sprite read
  returns any byte), \<open>search\<close> returns exactly \<open>qty\<close> sprites, sprite \<open>i\<close> with the
  offset \<open>offset + i * length\<close>, and every sprite whose read is empty has the dummy
  image.
\<close>

theorem search_past_end:
  assumes "1 \<le> w" and "1 \<le> h" and "k \<le> qty"
    and "paloffset + 32 \<le> length bytes \<or> (length bytes \<le> paloffset \<and> k = 0)"
    and "k = 0 \<or> offset + k * (w * h * 32) \<le> length bytes"
    and "k < qty \<longrightarrow> length bytes \<le> offset + k * (w * h * 32)"
  shows "\<exists>sprites. search native (Found bytes) offset (w, h) paloffset qty = Inr sprites \<and>
      length sprites = qty \<and>
      (\<forall>i<qty. sp_offset (sprites ! i) = offset + i * (w * h * 32)) \<and>
      (\<forall>i<qty. k \<le> i \<longrightarrow>
         sp_image (sprites ! i) =
           \<lparr>width = 16 * w, height = 16 * h,
            pixels = replicate (16 * w * (16 * h)) [170, 170, 170]\<rparr>)"
  using search_all_or_nothing [OF assms, of native] by (simp add: dummy_image_def)

theorem search_past_end_witness:
  "(1::nat) \<le> 1 \<and> (1::nat) \<le> 2 \<and>
   0 + 32 \<le> length (replicate 64 (0::byte)) \<and>
   32 + 1 * (1 * 1 * 32) \<le> length (replicate 64 (0::byte)) \<and>
   length (replicate 64 (0::byte)) \<le> 32 + 1 * (1 * 1 * 32) \<and>
   (\<exists>sprites. search LittleEndian (Found (replicate 64 0)) 32 (1, 1) 0 2 = Inr sprites \<and>
      length sprites = 2 \<and>
      sp_image (sprites ! 1) =
        \<lparr>width = 16, height = 16, pixels = replicate 256 [170, 170, 170]\<rparr>)"
proof -
  have a: "(1::nat) \<le> 1" and b: "(1::nat) \<le> 2" by simp_all
  have c: "0 + 32 \<le> length (replicate 64 (0::byte)) \<or> (length (replicate 64 (0::byte)) \<le> 0 \<and> (1::nat) = 0)"
    by simp
  have d: "(1::nat) = 0 \<or> 32 + 1 * (1 * 1 * 32) \<le> length (replicate 64 (0::byte))" by simp
  have e: "(1::nat) < 2 \<longrightarrow> length (replicate 64 (0::byte)) \<le> 32 + 1 * (1 * 1 * 32)" by simp
  from search_past_end [OF a a b c d e, of LittleEndian]
  obtain sprites where "search LittleEndian (Found (replicate 64 0)) 32 (1, 1) 0 2 = Inr sprites"
    and "length sprites = 2"
    and q: "\<forall>i<2. 1 \<le> i \<longrightarrow> sp_image (sprites ! i) =
           \<lparr>width = 16 * 1, height = 16 * 1,
            pixels = replicate (16 * 1 * (16 * 1)) [170, 170, 170]\<rparr>"
    by blast
  moreover from q [rule_format, of 1]
  have "sp_image (sprites ! 1) = \<lparr>width = 16, height = 16, pixels = replicate 256 [170, 170, 170]\<rparr>"
    by simp
  ultimately show ?thesis
    by (intro conjI exI [of _ sprites]) simp_all
qed

lemma search_empty_palette:
  assumes "length bytes \<le> paloffset" and "1 \<le> w" and "1 \<le> h" and "0 < qty"
    and "offset + w * h * 32 \<le> length bytes"
  shows "search native (Found bytes) offset (w, h) paloffset qty = Inl IndexError"
proof -
  let ?L = "w * h * 32"
  let ?pal = "\<lparr>pal_offset = paloffset, colors = []\<rparr>"
  let ?data = "take ?L (drop offset bytes)"
  have pal: "Palette native (take 32 (drop paloffset bytes)) paloffset = Inr ?pal"
    using assms(1) by (simp add: Palette_def)
  have w: "0 < w" and h: "0 < h" using assms(2,3) by simp_all
  have len: "length ?data = ?L" using assms(5) by simp
  then have ne: "?data \<noteq> []" using w h by auto
  have bs: "Image_bytestring ?data (w, h) = Inr (spec_indices ?data (w, h))"
    using w len by (rule Image_bytestring_exact)
  have "length (spec_indices ?data (w, h)) = w * 8 * (h * 8)"
    using len by (rule length_spec_indices)
  then obtain i idxs where "spec_indices ?data (w, h) = i # idxs"
    using w h by (cases "spec_indices ?data (w, h)") auto
  then have "apply_palette (spec_indices ?data (w, h)) ?pal = Inl IndexError"
    by (simp add: apply_palette_def)
  then have "Image ?data (w, h) ?pal = Inl IndexError"
    using ne by (simp add: Image_def Image_unscaled_def Image_result_def bs)
  then have "read_sprites (map (\<lambda>k. offset + k * ?L) [0..<qty]) ?L (w, h) ?pal
       (\<lparr>contents = bytes, pos = offset, reads = [(paloffset, 32)]\<rparr>, []) = Inl IndexError"
    using assms(4)
    by (simp add: upt_conv_Cons read_sprites_def read_def Let_def Sprite_def del: upt_Suc)
  then show ?thesis
    by (simp add: search_Found search_file_sprites [OF pal assms(2,3)])
qed

theorem search_past_end_counterexample:
  "search LittleEndian (Found (replicate 32 0)) 0 (1, 1) 32 1 = Inl IndexError"
  by (rule search_empty_palette) simp_all

text \<open>
  C10, as the code has it. For an opened source whose palette read returns an even
  number of bytes (all 32, or fewer at the end of the file, or none) and a tile grid with
  both components at least 1, \<open>search\<close> with a quantity of 0 returns the empty list: its
  one read is the 32-byte palette read, and it makes no sprite.
\<close>

theorem search_zero_count:
  assumes "1 \<le> w" and "1 \<le> h" and "even (length (take 32 (drop paloffset bytes)))"
  shows "search native (Found bytes) offset (w, h) paloffset 0 = Inr [] \<and>
    (\<exists>f'. search_file native \<lparr>contents = bytes, pos = 0, reads = []\<rparr> offset (w, h) paloffset 0 =
        Inr (f', []) \<and> reads f' = [(paloffset, 32)])"
proof -
  from Palette_even_Inr [OF assms(3), of native paloffset]
  obtain pal where pal: "Palette native (take 32 (drop paloffset bytes)) paloffset = Inr pal"
    by blast
  have "search_file native \<lparr>contents = bytes, pos = 0, reads = []\<rparr> offset (w, h) paloffset 0 =
      Inr (\<lparr>contents = bytes, pos = offset, reads = [(paloffset, 32)]\<rparr>, [])"
    by (simp add: search_file_sprites [OF pal assms(1,2)] read_sprites_def)
  then show ?thesis by (simp add: search_Found)
qed

theorem search_zero_count_witness:
  "(1::nat) \<le> 2 \<and> (1::nat) \<le> 2 \<and> even (length (take 32 (drop 4 (replicate 40 (0::byte))))) \<and>
   search LittleEndian (Found (replicate 40 0)) 8 (2, 2) 4 0 = Inr []"
proof -
  have a: "(1::nat) \<le> 2" by simp
  have e: "even (length (take 32 (drop 4 (replicate 40 (0::byte)))))" by simp
  from search_zero_count [OF a a e, of LittleEndian 8] show ?thesis using a e by blast
qed

theorem search_zero_count_counterexample:
  "search LittleEndian (Found [0x00]) 0 (1, 1) 0 0 = Inl StructError"
  by (rule search_palette_error) (simp add: Palette_odd)

end
